theory Spec2Isabelle
  imports Main "HOL-Library.Word"
begin

unbundle bit_operations_syntax

section \<open>C library routines used by lightup.c\<close>

text \<open>
  A C string is modelled by the list of its characters before the terminating NUL, and a
  \<open>char *\<close> walking through it by the suffix still to be read.

  An \<open>int\<close> has 32 bits and a \<open>long\<close> 64. \<open>c_int v\<close> is the \<open>int\<close> that holds the low 32
  bits of \<open>v\<close> in two's complement: what a product or a sum of two \<open>int\<close> gives on the
  machine, and what a \<open>long\<close> stored into an \<open>int\<close> becomes. \<open>to_long v\<close> is the value at
  which \<open>strtol\<close> stops: \<open>LONG_MAX\<close> or \<open>LONG_MIN\<close> when \<open>v\<close> is beyond them.
\<close>

definition c_int :: "int \<Rightarrow> int" where
  "c_int v = (v + 2147483648) mod 4294967296 - 2147483648"

definition to_long :: "int \<Rightarrow> int" where
  "to_long v =
     (if v > 9223372036854775807 then 9223372036854775807
      else if v < - 9223372036854775808 then - 9223372036854775808
      else v)"

definition isdigit :: "char \<Rightarrow> bool" where
  "isdigit c = (48 \<le> (of_char c :: nat) \<and> (of_char c :: nat) \<le> 57)"

definition isspace :: "char \<Rightarrow> bool" where
  "isspace c = ((of_char c :: nat) = 32 \<or> (9 \<le> (of_char c :: nat) \<and> (of_char c :: nat) \<le> 13))"

text \<open>The digits of \<open>strtol\<close>, base 10, accumulated from the left until a non-digit.\<close>

fun digits_val :: "int \<Rightarrow> string \<Rightarrow> int" where
  "digits_val acc [] = acc"
| "digits_val acc (c # cs) =
     (if isdigit c then digits_val (acc * 10 + (int (of_char c) - 48)) cs else acc)"

text \<open>
  \<open>atoi\<close>: leading white space, an optional sign, then digits; 0 when there are none. The
  result is the value of the numeral; this is the \<open>int\<close> that the C function returns for
  every numeral that fits an \<open>int\<close>, as those that \<open>encode_params\<close> prints from the \<open>int\<close>
  fields of a \<open>game_params\<close> do.
\<close>

definition atoi :: "string \<Rightarrow> int" where
  "atoi s =
     (let t = dropWhile isspace s in
      if t \<noteq> [] \<and> hd t = CHR ''-'' then - digits_val 0 (tl t)
      else if t \<noteq> [] \<and> hd t = CHR ''+'' then digits_val 0 (tl t)
      else digits_val 0 t)"

text \<open>The conversion \<open>%d\<close> of \<open>sprintf\<close>.\<close>

definition digit_char :: "nat \<Rightarrow> char" where
  "digit_char d = char_of (48 + d)"

fun show_nat :: "nat \<Rightarrow> string" where
  "show_nat n = (if n < 10 then [digit_char n] else show_nat (n div 10) @ [digit_char (n mod 10)])"

declare show_nat.simps [simp del]

definition show_int :: "int \<Rightarrow> string" where
  "show_int i = (if i < 0 then CHR ''-'' # show_nat (nat (- i)) else show_nat (nat i))"

text \<open>
  The conversion \<open>%d\<close> of \<open>sscanf\<close>: white space is skipped, a sign is optional, and at
  least one digit is required. The result is the \<open>int\<close> that is stored and the text after
  the digits. The C standard leaves the stored value open when the number does not fit an
  \<open>int\<close>; the model follows the GNU C library, which converts the digits as \<open>strtol\<close> does
  and stores the \<open>long\<close> into the \<open>int\<close>, so that \<open>4294967296\<close> is read as 0.
\<close>

definition scan_int :: "string \<Rightarrow> (int \<times> string) option" where
  "scan_int s =
     (let t = dropWhile isspace s;
          neg = (t \<noteq> [] \<and> hd t = CHR ''-'');
          u = (if t \<noteq> [] \<and> (hd t = CHR ''-'' \<or> hd t = CHR ''+'') then tl t else t)
      in if u = [] \<or> \<not> isdigit (hd u) then None
         else Some (c_int (to_long (if neg then - digits_val 0 u else digits_val 0 u)),
                    dropWhile isdigit u))"

text \<open>
  \<open>sscanf(move, "%d,%d%n", &x, &y, &n) == 2\<close>: both numbers were read, with a comma
  right after the first. The third component is \<open>move + n\<close>.
\<close>

definition sscanf_d_d_n :: "string \<Rightarrow> (int \<times> int \<times> string) option" where
  "sscanf_d_d_n s =
     (case scan_int s of
        None \<Rightarrow> None
      | Some (x, r) \<Rightarrow>
          if r \<noteq> [] \<and> hd r = CHR '','' then
            (case scan_int (tl r) of
               None \<Rightarrow> None
             | Some (y, r') \<Rightarrow> Some (x, y, r'))
          else None)"

section \<open>Game parameters\<close>

record game_params =
  w :: int
  h :: int
  blackpc :: int
  symm :: int
  recurse :: int

text \<open>\<open>EATNUM(x)\<close>: \<open>x = atoi(string)\<close>, then the pointer moves over the digits.\<close>

definition EATNUM :: "string \<Rightarrow> int \<times> string" where
  "EATNUM string = (atoi string, dropWhile isdigit string)"

definition decode_params :: "game_params \<Rightarrow> string \<Rightarrow> game_params" where
  "decode_params params string =
     (let (v0, s0) = EATNUM string;
          p0 = params\<lparr>w := v0\<rparr>;
          (p1, s1) = (if s0 \<noteq> [] \<and> hd s0 = CHR ''x''
                      then (let (v, t) = EATNUM (tl s0) in (p0\<lparr>h := v\<rparr>, t))
                      else (p0, s0));
          (p2, s2) = (if s1 \<noteq> [] \<and> hd s1 = CHR ''b''
                      then (let (v, t) = EATNUM (tl s1) in (p1\<lparr>blackpc := v\<rparr>, t))
                      else (p1, s1));
          (p3, s3) = (if s2 \<noteq> [] \<and> hd s2 = CHR ''s''
                      then (let (v, t) = EATNUM (tl s2) in (p2\<lparr>symm := v\<rparr>, t))
                      else (p2, s2));
          p4 = p3\<lparr>recurse := 0\<rparr>
      in if s3 \<noteq> [] \<and> hd s3 = CHR ''r'' then p4\<lparr>recurse := 1\<rparr> else p4)"

definition encode_params :: "game_params \<Rightarrow> bool \<Rightarrow> string" where
  "encode_params params full =
     (if full then
        show_int (w params) @ ''x'' @ show_int (h params) @ ''b'' @ show_int (blackpc params)
          @ ''s'' @ show_int (symm params) @ (if recurse params \<noteq> 0 then ''r'' else '''')
      else show_int (w params) @ ''x'' @ show_int (h params))"

section \<open>Puzzle descriptions\<close>




section \<open>Game state\<close>

text \<open>
  An \<open>assert\<close> that fails aborts the program: \<open>AssertFailed\<close>. \<open>BadPointer\<close> is the
  use of a pointer to no object. \<open>OutOfFuel\<close> belongs to the model only (see
  \<open>solve_sub\<close>).
\<close>

datatype error = AssertFailed | BadPointer | OutOfFuel

definition F_BLACK :: "32 word" where "F_BLACK = 1"
definition F_NUMBERED :: "32 word" where "F_NUMBERED = 2"
definition F_NUMBERUSED :: "32 word" where "F_NUMBERUSED = 4"
definition F_IMPOSSIBLE :: "32 word" where "F_IMPOSSIBLE = 8"
definition F_LIGHT :: "32 word" where "F_LIGHT = 16"
definition F_MARK :: "32 word" where "F_MARK = 32"

text \<open>
  The two planes are arrays of \<open>w * h\<close> cells, row by row. The dimensions are sizes of
  allocated arrays and the coordinates index them, so both are natural numbers; what a
  move string names is an \<open>int\<close> until \<open>execute_move\<close> has checked its range.
\<close>

record game_state =
  w :: nat
  h :: nat
  nlights :: int
  lights :: "int list"
  flags :: "32 word list"
  completed :: int
  used_solve :: int

text \<open>\<open>GRID(gs, grid, x, y)\<close> is \<open>gs->grid[y * gs->w + x]\<close>, read and written.\<close>

definition GRID_flags :: "game_state \<Rightarrow> nat \<Rightarrow> nat \<Rightarrow> 32 word" where
  "GRID_flags gs x y = flags gs ! (y * w gs + x)"

definition GRID_lights :: "game_state \<Rightarrow> nat \<Rightarrow> nat \<Rightarrow> int" where
  "GRID_lights gs x y = lights gs ! (y * w gs + x)"

definition GRID_flags_set :: "game_state \<Rightarrow> nat \<Rightarrow> nat \<Rightarrow> 32 word \<Rightarrow> game_state" where
  "GRID_flags_set gs x y v = gs\<lparr>flags := (flags gs)[y * w gs + x := v]\<rparr>"

definition GRID_lights_set :: "game_state \<Rightarrow> nat \<Rightarrow> nat \<Rightarrow> int \<Rightarrow> game_state" where
  "GRID_lights_set gs x y v = gs\<lparr>lights := (lights gs)[y * w gs + x := v]\<rparr>"

text \<open>
  The cells in the order of \<open>for (x ...) for (y ...)\<close>, which most loops use, and in the
  row-major order of \<open>for (y ...) for (x ...)\<close>.
\<close>

definition cells_xy :: "nat \<Rightarrow> nat \<Rightarrow> (nat \<times> nat) list" where
  "cells_xy wd ht = concat (map (\<lambda>x. map (\<lambda>y. (x, y)) [0..<ht]) [0..<wd])"

definition cells_yx :: "nat \<Rightarrow> nat \<Rightarrow> (nat \<times> nat) list" where
  "cells_yx wd ht = concat (map (\<lambda>y. map (\<lambda>x. (x, y)) [0..<wd]) [0..<ht])"

record ll_data =
  ox :: nat
  oy :: nat
  minx :: nat
  maxx :: nat
  miny :: nat
  maxy :: nat
  include_origin :: bool

text \<open>
  \<open>FOREACHLIT(lld, block)\<close> runs \<open>block\<close> at these cells in this order: the row segment
  without the origin, then the column segment, with the origin when it is included.
\<close>

definition FOREACHLIT :: "ll_data \<Rightarrow> (nat \<times> nat) list" where
  "FOREACHLIT lld =
     map (\<lambda>lx. (lx, oy lld)) (filter (\<lambda>lx. lx \<noteq> ox lld) [minx lld..<Suc (maxx lld)])
     @ map (\<lambda>ly. (ox lld, ly))
         (filter (\<lambda>ly. include_origin lld \<or> ly \<noteq> oy lld) [miny lld..<Suc (maxy lld)])"

text \<open>
  \<open>surrounds\<close>: up to four points \<open>(x, y, f)\<close>; \<open>npoints\<close> is the length of the list.
\<close>

type_synonym surrounds = "(nat \<times> nat \<times> 32 word) list"

definition get_surrounds :: "game_state \<Rightarrow> nat \<Rightarrow> nat \<Rightarrow> error + surrounds" where
  "get_surrounds state x0 y0 =
     (if \<not> (x0 < w state \<and> y0 < h state) then Inl AssertFailed
      else Inr ((if x0 > 0 then [(x0 - 1, y0, 0)] else [])
              @ (if x0 < w state - 1 then [(x0 + 1, y0, 0)] else [])
              @ (if y0 > 0 then [(x0, y0 - 1, 0)] else [])
              @ (if y0 < h state - 1 then [(x0, y0 + 1, 0)] else [])))"

subsection \<open>Construction\<close>

definition new_state :: "game_params \<Rightarrow> game_state" where
  "new_state params =
     \<lparr>w = nat (game_params.w params), h = nat (game_params.h params), nlights = 0,
      lights = replicate (nat (game_params.w params) * nat (game_params.h params)) 0,
      flags = replicate (nat (game_params.w params) * nat (game_params.h params)) 0,
      completed = 0, used_solve = 0\<rparr>"

definition dup_game :: "game_state \<Rightarrow> game_state" where
  "dup_game state =
     \<lparr>w = w state, h = h state, nlights = nlights state,
      lights = take (w state * h state) (lights state),
      flags = take (w state * h state) (flags state),
      completed = completed state, used_solve = used_solve state\<rparr>"

subsection \<open>Completion tests\<close>

definition grid_lit :: "game_state \<Rightarrow> bool" where
  "grid_lit state =
     list_all (\<lambda>(x, y). GRID_flags state x y AND F_BLACK \<noteq> 0 \<or> GRID_lights state x y \<noteq> 0)
       (cells_xy (w state) (h state))"

definition grid_overlap :: "game_state \<Rightarrow> bool" where
  "grid_overlap state =
     list_ex (\<lambda>(x, y). GRID_flags state x y AND F_LIGHT \<noteq> 0 \<and> GRID_lights state x y > 1)
       (cells_xy (w state) (h state))"

definition number_correct :: "game_state \<Rightarrow> nat \<Rightarrow> nat \<Rightarrow> error + bool" where
  "number_correct state x y =
     (if GRID_flags state x y AND F_NUMBERED = 0 then Inl AssertFailed
      else case get_surrounds state x y of
             Inl e \<Rightarrow> Inl e
           | Inr s \<Rightarrow>
               Inr (int (length (filter (\<lambda>(px, py, f). GRID_flags state px py AND F_LIGHT \<noteq> 0) s))
                    = GRID_lights state x y))"

fun grid_addsup_loop :: "game_state \<Rightarrow> (nat \<times> nat) list \<Rightarrow> error + bool" where
  "grid_addsup_loop state [] = Inr True"
| "grid_addsup_loop state ((x, y) # cells) =
     (if GRID_flags state x y AND F_NUMBERED = 0 then grid_addsup_loop state cells
      else case number_correct state x y of
             Inl e \<Rightarrow> Inl e
           | Inr ok \<Rightarrow> if \<not> ok then Inr False else grid_addsup_loop state cells)"

definition grid_addsup :: "game_state \<Rightarrow> error + bool" where
  "grid_addsup state = grid_addsup_loop state (cells_xy (w state) (h state))"

definition grid_correct :: "game_state \<Rightarrow> error + bool" where
  "grid_correct state =
     (if grid_lit state \<and> \<not> grid_overlap state then grid_addsup state else Inr False)"

subsection \<open>Lines of sight and lights\<close>

text \<open>
  The four loops of \<open>list_lights\<close>. A loop that counts down from \<open>ox - 1\<close> to 0 recurses
  on \<open>x + 1\<close>; one that counts up to the edge recurses on the distance left.
\<close>

fun ll_left :: "game_state \<Rightarrow> nat \<Rightarrow> nat \<Rightarrow> nat \<Rightarrow> nat" where
  "ll_left state y 0 m = m"
| "ll_left state y (Suc x) m =
     (if GRID_flags state x y AND F_BLACK \<noteq> 0 then m
      else ll_left state y x (if x < m then x else m))"

function ll_right :: "game_state \<Rightarrow> nat \<Rightarrow> nat \<Rightarrow> nat \<Rightarrow> nat" where
  "ll_right state y x m =
     (if x < w state then
        (if GRID_flags state x y AND F_BLACK \<noteq> 0 then m
         else ll_right state y (x + 1) (if x > m then x else m))
      else m)"
  by pat_completeness auto
termination
  by (relation "measure (\<lambda>(state, y, x, m). w state - x)") auto

fun ll_up :: "game_state \<Rightarrow> nat \<Rightarrow> nat \<Rightarrow> nat \<Rightarrow> nat" where
  "ll_up state x 0 m = m"
| "ll_up state x (Suc y) m =
     (if GRID_flags state x y AND F_BLACK \<noteq> 0 then m
      else ll_up state x y (if y < m then y else m))"

function ll_down :: "game_state \<Rightarrow> nat \<Rightarrow> nat \<Rightarrow> nat \<Rightarrow> nat" where
  "ll_down state x y m =
     (if y < h state then
        (if GRID_flags state x y AND F_BLACK \<noteq> 0 then m
         else ll_down state x (y + 1) (if y > m then y else m))
      else m)"
  by pat_completeness auto
termination
  by (relation "measure (\<lambda>(state, x, y, m). h state - y)") auto

declare ll_right.simps [simp del] ll_down.simps [simp del]

definition list_lights :: "game_state \<Rightarrow> nat \<Rightarrow> nat \<Rightarrow> bool \<Rightarrow> ll_data" where
  "list_lights state x0 y0 origin =
     \<lparr>ox = x0, oy = y0,
      minx = ll_left state y0 x0 x0, maxx = ll_right state y0 (x0 + 1) x0,
      miny = ll_up state x0 y0 y0, maxy = ll_down state x0 (y0 + 1) y0,
      include_origin = origin\<rparr>"

definition add_lights :: "int \<Rightarrow> game_state \<Rightarrow> (nat \<times> nat) list \<Rightarrow> game_state" where
  "add_lights diff state cells =
     fold (\<lambda>(lx, ly) st. GRID_lights_set st lx ly (GRID_lights st lx ly + diff)) cells state"

definition set_light :: "game_state \<Rightarrow> nat \<Rightarrow> nat \<Rightarrow> bool \<Rightarrow> error + game_state" where
  "set_light state x0 y0 on =
     (if GRID_flags state x0 y0 AND F_BLACK \<noteq> 0 then Inl AssertFailed
      else if \<not> on \<and> GRID_flags state x0 y0 AND F_LIGHT \<noteq> 0 then
        (let st = GRID_flags_set state x0 y0 (GRID_flags state x0 y0 AND NOT F_LIGHT);
             st = st\<lparr>nlights := nlights st - 1\<rparr>
         in Inr (add_lights (- 1) st (FOREACHLIT (list_lights st x0 y0 True))))
      else if on \<and> GRID_flags state x0 y0 AND F_LIGHT = 0 then
        (let st = GRID_flags_set state x0 y0 (GRID_flags state x0 y0 OR F_LIGHT);
             st = st\<lparr>nlights := nlights st + 1\<rparr>
         in Inr (add_lights 1 st (FOREACHLIT (list_lights st x0 y0 True))))
      else Inr state)"

subsection \<open>Moves\<close>

text \<open>
  \<open>execute_move\<close> works on a copy \<open>ret\<close> of the state. One turn of its loop reads the
  command at the front of \<open>move\<close>: \<open>execute_cmd\<close> is the body up to \<open>move += n\<close>, and
  gives the state and the text after the command, or \<open>None\<close> for \<open>goto badmove\<close>.
\<close>

text \<open>
  Modelled from the spec: the macro \<open>TRUE\<close>, which the sources at hand use and do not
  define. The specification has \<open>used_solve\<close> latched true by the command \<open>S\<close>; the model
  takes the C truth value 1.
\<close>

definition TRUE :: int where
  "TRUE = 1"

definition execute_cmd :: "game_state \<Rightarrow> char \<Rightarrow> string \<Rightarrow> error + (game_state \<times> string) option" where
  "execute_cmd ret c move =
     (if c = CHR ''S'' then Inr (Some (ret\<lparr>used_solve := TRUE\<rparr>, move))
      else if c = CHR ''L'' \<or> c = CHR ''I'' then
        (case sscanf_d_d_n move of
           None \<Rightarrow> Inr None
         | Some (x, y, rest) \<Rightarrow>
             if x < 0 \<or> y < 0 \<or> x \<ge> int (w ret) \<or> y \<ge> int (h ret) then Inr None
             else
               (let fl = GRID_flags ret (nat x) (nat y) in
                if fl AND F_BLACK \<noteq> 0 then Inr None
                else if c = CHR ''L'' then
                  (case set_light
                          (GRID_flags_set ret (nat x) (nat y)
                             (GRID_flags ret (nat x) (nat y) AND NOT F_IMPOSSIBLE))
                          (nat x) (nat y) (fl AND F_LIGHT = 0) of
                     Inl e \<Rightarrow> Inl e
                   | Inr ret' \<Rightarrow> Inr (Some (ret', rest)))
                else
                  (case set_light ret (nat x) (nat y) False of
                     Inl e \<Rightarrow> Inl e
                   | Inr ret' \<Rightarrow>
                       Inr (Some (GRID_flags_set ret' (nat x) (nat y)
                                    (GRID_flags ret' (nat x) (nat y) XOR F_IMPOSSIBLE), rest)))))
      else Inr None)"

lemma scan_int_length: "scan_int s = Some (v, r) \<Longrightarrow> length r \<le> length s"
proof -
  assume a: "scan_int s = Some (v, r)"
  have t: "length (dropWhile isspace s) \<le> length s" by (rule length_dropWhile_le)
  have "length (dropWhile isdigit (tl (dropWhile isspace s))) \<le> length (tl (dropWhile isspace s))"
    by (rule length_dropWhile_le)
  with t have h1: "length (dropWhile isdigit (tl (dropWhile isspace s))) \<le> length s" by simp
  have "length (dropWhile isdigit (dropWhile isspace s)) \<le> length (dropWhile isspace s)"
    by (rule length_dropWhile_le)
  with t have h2: "length (dropWhile isdigit (dropWhile isspace s)) \<le> length s" by simp
  from a have "r = dropWhile isdigit (tl (dropWhile isspace s))
             \<or> r = dropWhile isdigit (dropWhile isspace s)"
    unfolding scan_int_def Let_def by (auto split: if_splits)
  with h1 h2 show ?thesis by blast
qed

lemma sscanf_d_d_n_length: "sscanf_d_d_n s = Some (x, y, r) \<Longrightarrow> length r \<le> length s"
proof -
  assume a: "sscanf_d_d_n s = Some (x, y, r)"
  then obtain r1 where 1: "scan_int s = Some (x, r1)" and 2: "scan_int (tl r1) = Some (y, r)"
    by (auto simp: sscanf_d_d_n_def split: option.splits if_splits)
  have "length r \<le> length (tl r1)" using 2 by (rule scan_int_length)
  also have "\<dots> \<le> length r1" by simp
  also have "\<dots> \<le> length s" using 1 by (rule scan_int_length)
  finally show ?thesis .
qed

lemma execute_cmd_length:
  "execute_cmd ret c move = Inr (Some (ret', rest)) \<Longrightarrow> length rest \<le> length move"
  by (auto simp: execute_cmd_def Let_def split: if_splits option.splits sum.splits
      dest: sscanf_d_d_n_length)

function execute_move_loop :: "game_state \<Rightarrow> string \<Rightarrow> error + game_state option" where
  "execute_move_loop ret [] = Inr (Some ret)"
| "execute_move_loop ret (c # move) =
     (case execute_cmd ret c move of
        Inl e \<Rightarrow> Inl e
      | Inr None \<Rightarrow> Inr None
      | Inr (Some (ret', rest)) \<Rightarrow>
          if rest \<noteq> [] \<and> hd rest = CHR '';'' then execute_move_loop ret' (tl rest)
          else if rest \<noteq> [] then Inr None
          else execute_move_loop ret' rest)"
  by pat_completeness auto
termination
proof (relation "measure (\<lambda>(ret, move). length move)")
  show "wf (measure (\<lambda>(ret, move). length move))" by simp
next
  fix ret :: game_state and c move x2 x2a x y
  assume "execute_cmd ret c move = Inr x2" "x2 = Some x2a" "(x, y) = x2a"
  then have "length y \<le> length move" using execute_cmd_length [of ret c move x y] by simp
  then show "((x, tl y), ret, c # move) \<in> measure (\<lambda>(ret, move). length move)" by simp
next
  fix ret :: game_state and c move x2 x2a x y
  assume "execute_cmd ret c move = Inr x2" "x2 = Some x2a" "(x, y) = x2a"
  then have "length y \<le> length move" using execute_cmd_length [of ret c move x y] by simp
  then show "((x, y), ret, c # move) \<in> measure (\<lambda>(ret, move). length move)" by simp
qed

definition execute_move :: "game_state \<Rightarrow> string \<Rightarrow> error + game_state option" where
  "execute_move state move =
     (let ret = dup_game state in
      if move = [] then Inr None
      else case execute_move_loop ret move of
             Inl e \<Rightarrow> Inl e
           | Inr None \<Rightarrow> Inr None
           | Inr (Some ret') \<Rightarrow>
               (case grid_correct ret' of
                  Inl e \<Rightarrow> Inl e
                | Inr ok \<Rightarrow> Inr (Some (if ok then ret'\<lparr>completed := 1\<rparr> else ret'))))"

subsection \<open>The states in memory\<close>

text \<open>
  \<open>execute_move\<close> works on a copy: \<open>ret = dup_game(state)\<close> is a new object, every command
  writes through \<open>ret\<close>, and \<open>badmove\<close> frees it. To say what becomes of the caller's state,
  the states live in a store: the list of the objects by address, with \<open>None\<close> where nothing
  is allocated. \<open>snew\<close> takes the next address and \<open>sfree\<close> gives one back. A
  \<open>game_state\<close> is stored with its two planes, which \<open>dup_game\<close> allocates anew for each
  state.
\<close>

type_synonym store = "game_state option list"

definition deref :: "store \<Rightarrow> nat \<Rightarrow> game_state option" where
  "deref st p = (if p < length st then st ! p else None)"

definition snew :: "store \<Rightarrow> game_state \<Rightarrow> store \<times> nat" where
  "snew st v = (st @ [Some v], length st)"

definition sfree :: "store \<Rightarrow> nat \<Rightarrow> store" where
  "sfree st p = st[p := None]"

definition store_set :: "store \<Rightarrow> nat \<Rightarrow> game_state \<Rightarrow> store" where
  "store_set st p v = st[p := Some v]"

text \<open>
  One command of the loop, on the object behind \<open>ret\<close>: \<open>execute_cmd\<close> gives what is written
  there. The result is the store and, unless the command is a bad move, the text that
  follows it.
\<close>

definition execute_cmd_at :: "store \<Rightarrow> nat \<Rightarrow> char \<Rightarrow> string \<Rightarrow> error + (store \<times> string option)" where
  "execute_cmd_at st ret c move =
     (case deref st ret of
        None \<Rightarrow> Inl BadPointer
      | Some r \<Rightarrow>
          (case execute_cmd r c move of
             Inl e \<Rightarrow> Inl e
           | Inr None \<Rightarrow> Inr (st, None)
           | Inr (Some (r', rest)) \<Rightarrow> Inr (store_set st ret r', Some rest)))"

lemma execute_cmd_at_length:
  "execute_cmd_at st ret c move = Inr (st', Some rest) \<Longrightarrow> length rest \<le> length move"
  by (auto simp: execute_cmd_at_def split: option.splits sum.splits dest: execute_cmd_length)

text \<open>The loop; the result is the store and whether the loop came to the end of the move.\<close>

function execute_move_loop_at :: "store \<Rightarrow> nat \<Rightarrow> string \<Rightarrow> error + (store \<times> bool)" where
  "execute_move_loop_at st ret [] = Inr (st, True)"
| "execute_move_loop_at st ret (c # move) =
     (case execute_cmd_at st ret c move of
        Inl e \<Rightarrow> Inl e
      | Inr (st', None) \<Rightarrow> Inr (st', False)
      | Inr (st', Some rest) \<Rightarrow>
          if rest \<noteq> [] \<and> hd rest = CHR '';'' then execute_move_loop_at st' ret (tl rest)
          else if rest \<noteq> [] then Inr (st', False)
          else execute_move_loop_at st' ret rest)"
  by pat_completeness auto
termination
proof (relation "measure (\<lambda>(st, ret, move). length move)")
  show "wf (measure (\<lambda>(st, ret, move). length move))" by simp
next
  fix st :: store and ret :: nat and c move x2 st' ro rest
  assume "execute_cmd_at st ret c move = Inr x2" "(st', ro) = x2" "ro = Some rest"
  then have "length rest \<le> length move" using execute_cmd_at_length [of st ret c move st' rest] by simp
  then show "((st', ret, tl rest), st, ret, c # move) \<in> measure (\<lambda>(st, ret, move). length move)"
    by simp
next
  fix st :: store and ret :: nat and c move x2 st' ro rest
  assume "execute_cmd_at st ret c move = Inr x2" "(st', ro) = x2" "ro = Some rest"
  then have "length rest \<le> length move" using execute_cmd_at_length [of st ret c move st' rest] by simp
  then show "((st', ret, rest), st, ret, c # move) \<in> measure (\<lambda>(st, ret, move). length move)"
    by simp
qed

text \<open>
  \<open>execute_move\<close> with its pointers: the result is the store as the call leaves it and the
  pointer that is returned, \<open>None\<close> for \<open>NULL\<close>.
\<close>

definition execute_move_at :: "store \<Rightarrow> nat \<Rightarrow> string \<Rightarrow> error + (store \<times> nat option)" where
  "execute_move_at st state move =
     (case deref st state of
        None \<Rightarrow> Inl BadPointer
      | Some s \<Rightarrow>
          (case snew st (dup_game s) of
             (st1, ret) \<Rightarrow>
               if move = [] then Inr (sfree st1 ret, None)
               else
                 (case execute_move_loop_at st1 ret move of
                    Inl e \<Rightarrow> Inl e
                  | Inr (st2, False) \<Rightarrow> Inr (sfree st2 ret, None)
                  | Inr (st2, True) \<Rightarrow>
                      (case deref st2 ret of
                         None \<Rightarrow> Inl BadPointer
                       | Some r \<Rightarrow>
                           (case grid_correct r of
                              Inl e \<Rightarrow> Inl e
                            | Inr ok \<Rightarrow>
                                Inr (if ok then store_set st2 ret (r\<lparr>completed := 1\<rparr>) else st2,
                                     Some ret))))))"

subsection \<open>New game from a description\<close>

text \<open>
  \<open>new_game\<close> fills the grid row by row. \<open>c = *desc++\<close> at the end of the text reads the
  terminating NUL, which the \<open>switch\<close> then refuses.
\<close>

fun new_game_loop ::
  "(nat \<times> nat) list \<Rightarrow> string \<Rightarrow> int \<Rightarrow> game_state \<Rightarrow> error + (string \<times> game_state)" where
  "new_game_loop [] desc run ret = Inr (desc, ret)"
| "new_game_loop ((x, y) # cells) desc run ret =
     (let c0 = (if run = 0 then (if desc = [] then CHR 0x00 else hd desc) else CHR 0x00);
          desc1 = (if run = 0 then tl desc else desc)
      in if run = 0 \<and> c0 = CHR ''S'' then Inl AssertFailed
         else
           (let run1 = (if run = 0 \<and> 97 \<le> (of_char c0 :: nat) \<and> (of_char c0 :: nat) \<le> 122
                        then int (of_char c0) - 97 + 1 else run);
                c = (if run1 > 0 then CHR ''S'' else c0);
                run2 = (if run1 > 0 then run1 - 1 else run1)
            in if 48 \<le> (of_char c :: nat) \<and> (of_char c :: nat) \<le> 52 then
                 (let r1 = GRID_flags_set ret x y (GRID_flags ret x y OR F_NUMBERED);
                      r2 = GRID_lights_set r1 x y (int (of_char c) - 48);
                      r3 = GRID_flags_set r2 x y (GRID_flags r2 x y OR F_BLACK)
                  in new_game_loop cells desc1 run2 r3)
               else if c = CHR ''B'' then
                 new_game_loop cells desc1 run2
                   (GRID_flags_set ret x y (GRID_flags ret x y OR F_BLACK))
               else if c = CHR ''S'' then new_game_loop cells desc1 run2 ret
               else Inl AssertFailed))"

definition new_game :: "game_params \<Rightarrow> string \<Rightarrow> error + game_state" where
  "new_game params desc =
     (case new_game_loop (cells_yx (nat (game_params.w params)) (nat (game_params.h params)))
             desc 0 (new_state params) of
        Inl e \<Rightarrow> Inl e
      | Inr (rest, ret) \<Rightarrow> if rest \<noteq> [] then Inl AssertFailed else Inr ret)"

subsection \<open>Solver\<close>

text \<open>
  \<open>tsl_callback\<close> on \<open>(sx, sy, n)\<close>. The C variables \<open>sx\<close> and \<open>sy\<close> start
  uninitialised and are read only when \<open>n = 1\<close>, after the callback has set them; the
  model starts them at 0.
\<close>

definition tsl_callback :: "game_state \<Rightarrow> nat \<times> nat \<Rightarrow> nat \<times> nat \<times> int \<Rightarrow> nat \<times> nat \<times> int" where
  "tsl_callback state p acc =
     (case p of (lx, ly) \<Rightarrow> case acc of (sx, sy, n) \<Rightarrow>
        if GRID_flags state lx ly AND F_IMPOSSIBLE \<noteq> 0 then (sx, sy, n)
        else if GRID_lights state lx ly > 0 then (sx, sy, n)
        else (lx, ly, n + 1))"

definition try_solve_light ::
  "game_state \<Rightarrow> nat \<Rightarrow> nat \<Rightarrow> 32 word \<Rightarrow> int \<Rightarrow> error + (game_state \<times> bool)" where
  "try_solve_light state x0 y0 fl li =
     (if li > 0 then Inr (state, False)
      else if fl AND F_BLACK \<noteq> 0 then Inr (state, False)
      else
        (case fold (tsl_callback state) (FOREACHLIT (list_lights state x0 y0 True)) (0, 0, 0) of
           (sx, sy, n) \<Rightarrow>
             if n = 1 then
               (case set_light state sx sy True of
                  Inl e \<Rightarrow> Inl e
                | Inr st \<Rightarrow> Inr (st, True))
             else Inr (state, False)))"

definition could_place_light :: "32 word \<Rightarrow> int \<Rightarrow> int" where
  "could_place_light fl li =
     (if fl AND (F_BLACK OR F_IMPOSSIBLE) \<noteq> 0 then 0 else if li > 0 then 0 else 1)"

text \<open>
  The first loop of \<open>try_solve_number\<close>, on \<open>(points, nl, ns)\<close>: it marks the points
  that hold a light or cannot take one.
\<close>

definition tsn_mark ::
  "game_state \<Rightarrow> nat \<times> nat \<times> 32 word \<Rightarrow> surrounds \<times> int \<times> int \<Rightarrow> surrounds \<times> int \<times> int" where
  "tsn_mark state p acc =
     (case p of (x, y, f) \<Rightarrow> case acc of (ps, nl, ns) \<Rightarrow>
        if GRID_flags state x y AND F_LIGHT \<noteq> 0 then (ps @ [(x, y, f OR F_MARK)], nl - 1, ns - 1)
        else if could_place_light (GRID_flags state x y) (GRID_lights state x y) = 0
          then (ps @ [(x, y, f OR F_MARK)], nl, ns - 1)
        else (ps @ [(x, y, f)], nl, ns))"

fun tsn_impossible :: "surrounds \<Rightarrow> game_state \<times> bool \<Rightarrow> game_state \<times> bool" where
  "tsn_impossible [] acc = acc"
| "tsn_impossible ((x, y, f) # ps) (state, ret) =
     (if f AND F_MARK = 0
      then tsn_impossible ps (GRID_flags_set state x y (GRID_flags state x y OR F_IMPOSSIBLE), True)
      else tsn_impossible ps (state, ret))"

fun tsn_light :: "surrounds \<Rightarrow> game_state \<times> bool \<Rightarrow> error + (game_state \<times> bool)" where
  "tsn_light [] acc = Inr acc"
| "tsn_light ((x, y, f) # ps) (state, ret) =
     (if f AND F_MARK = 0
      then (case set_light state x y True of
              Inl e \<Rightarrow> Inl e
            | Inr st \<Rightarrow> tsn_light ps (st, True))
      else tsn_light ps (state, ret))"

definition try_solve_number ::
  "game_state \<Rightarrow> nat \<Rightarrow> nat \<Rightarrow> 32 word \<Rightarrow> int \<Rightarrow> error + (game_state \<times> bool)" where
  "try_solve_number state nx ny nflags nlights0 =
     (if nflags AND F_NUMBERED = 0 then Inr (state, False)
      else case get_surrounds state nx ny of
        Inl e \<Rightarrow> Inl e
      | Inr s \<Rightarrow>
          (case fold (tsn_mark state) s ([], nlights0, int (length s)) of
             (ps, nl, ns) \<Rightarrow>
               if ns = 0 then Inr (state, False)
               else if nl = 0 then
                 Inr (tsn_impossible ps
                        (GRID_flags_set state nx ny (GRID_flags state nx ny OR F_NUMBERUSED), False))
               else if nl = ns then
                 tsn_light ps
                   (GRID_flags_set state nx ny (GRID_flags state nx ny OR F_NUMBERUSED), False)
               else Inr (state, False)))"

text \<open>
  One pass of the two propagation rules over the grid, on \<open>(state, ncanplace, didstuff)\<close>.
\<close>

fun solve_pass ::
  "(nat \<times> nat) list \<Rightarrow> game_state \<times> int \<times> bool \<Rightarrow> error + (game_state \<times> int \<times> bool)" where
  "solve_pass [] acc = Inr acc"
| "solve_pass ((x, y) # cells) (state, ncanplace, didstuff) =
     (let fl = GRID_flags state x y;
          li = GRID_lights state x y;
          ncanplace1 = ncanplace + could_place_light fl li
      in case try_solve_light state x y fl li of
           Inl e \<Rightarrow> Inl e
         | Inr (st1, d1) \<Rightarrow>
             (case try_solve_number st1 x y fl li of
                Inl e \<Rightarrow> Inl e
              | Inr (st2, d2) \<Rightarrow> solve_pass cells (st2, ncanplace1, didstuff \<or> d1 \<or> d2)))"

text \<open>
  The choice of the square to guess, on \<open>(bestn, bestx, besty)\<close>: the number of unlit
  squares that a light at \<open>(x, y)\<close> would light is counted by \<open>FOREACHLIT\<close>.
\<close>

definition best_step :: "game_state \<Rightarrow> nat \<times> nat \<Rightarrow> int \<times> int \<times> int \<Rightarrow> int \<times> int \<times> int" where
  "best_step state p acc =
     (case p of (x, y) \<Rightarrow> case acc of (bestn, bestx, besty) \<Rightarrow>
        if could_place_light (GRID_flags state x y) (GRID_lights state x y) = 0
        then (bestn, bestx, besty)
        else
          (let n = int (length (filter (\<lambda>(lx, ly). GRID_lights state lx ly = 0)
                                  (FOREACHLIT (list_lights state x y True))))
           in if n > bestn then (n, int x, int y) else (bestn, bestx, besty)))"

definition choose_best :: "game_state \<Rightarrow> int \<times> int \<times> int" where
  "choose_best state = fold (best_step state) (cells_xy (w state) (h state)) (0, - 1, - 1)"

text \<open>\<open>if (maxdepth && *maxdepth < depth) *maxdepth = depth\<close>, with \<open>None\<close> for \<open>NULL\<close>.\<close>

definition note_depth :: "int option \<Rightarrow> int \<Rightarrow> int option" where
  "note_depth maxdepth depth =
     (case maxdepth of
        None \<Rightarrow> None
      | Some m \<Rightarrow> if m < depth then Some depth else Some m)"

text \<open>
  The two \<open>memcpy\<close> calls that bring the solved copy's planes back into \<open>state\<close>.
\<close>

definition copy_planes :: "game_state \<Rightarrow> game_state \<Rightarrow> game_state" where
  "copy_planes state scopy =
     state\<lparr>lights := take (w scopy * h scopy) (lights scopy) @ drop (w scopy * h scopy) (lights state),
           flags := take (w scopy * h scopy) (flags scopy) @ drop (w scopy * h scopy) (flags state)\<rparr>"

text \<open>
  \<open>solve_sub_loop\<close> is the \<open>while (1)\<close> of \<open>solve_sub\<close>; \<open>continue\<close> is the recursive
  call on the same depth. Nothing bounds the number of turns of that loop from the code
  alone, so the model counts them down in its first argument, together with the
  recursive calls, and answers \<open>OutOfFuel\<close> at 0. The result is the returned number, the
  state as the call leaves it and the value behind \<open>maxdepth\<close>.

  A recursive call of \<open>solve_sub\<close> is its first statement, \<open>note_depth\<close>, followed by the
  loop.
\<close>

fun solve_sub_loop ::
  "nat \<Rightarrow> game_state \<Rightarrow> bool \<Rightarrow> int \<Rightarrow> int \<Rightarrow> int option
     \<Rightarrow> error + (int \<times> game_state \<times> int option)" where
  "solve_sub_loop 0 state forceunique maxrecurse depth maxdepth = Inl OutOfFuel"
| "solve_sub_loop (Suc fuel) state forceunique maxrecurse depth maxdepth =
     (if grid_overlap state then Inr (0, state, maxdepth)
      else case grid_correct state of
        Inl e \<Rightarrow> Inl e
      | Inr True \<Rightarrow> Inr (1, state, maxdepth)
      | Inr False \<Rightarrow>
          (case solve_pass (cells_xy (w state) (h state)) (state, 0, False) of
             Inl e \<Rightarrow> Inl e
           | Inr (state1, ncanplace, didstuff) \<Rightarrow>
               if didstuff then solve_sub_loop fuel state1 forceunique maxrecurse depth maxdepth
               else if ncanplace = 0 then Inr (0, state1, maxdepth)
               else if depth \<ge> maxrecurse then Inr (- 1, state1, maxdepth)
               else
                 (case choose_best state1 of
                    (bestn, bestx, besty) \<Rightarrow>
                      if \<not> bestn > 0 then Inl AssertFailed
                      else if \<not> (bestx \<ge> 0 \<and> besty \<ge> 0) then Inl AssertFailed
                      else
                        (let scopy = dup_game state1;
                             state2 = GRID_flags_set state1 (nat bestx) (nat besty)
                                        (GRID_flags state1 (nat bestx) (nat besty) OR F_IMPOSSIBLE)
                         in case solve_sub_loop fuel state2 forceunique maxrecurse (depth + 1)
                                   (note_depth maxdepth (depth + 1)) of
                              Inl e \<Rightarrow> Inl e
                            | Inr (self_soluble, state3, maxdepth1) \<Rightarrow>
                                if \<not> forceunique \<and> self_soluble > 0
                                then Inr (self_soluble, state3, maxdepth1)
                                else
                                  (case set_light scopy (nat bestx) (nat besty) True of
                                     Inl e \<Rightarrow> Inl e
                                   | Inr scopy1 \<Rightarrow>
                                       (case solve_sub_loop fuel scopy1 forceunique maxrecurse
                                               (depth + 1) (note_depth maxdepth1 (depth + 1)) of
                                          Inl e \<Rightarrow> Inl e
                                        | Inr (copy_soluble, scopy2, maxdepth2) \<Rightarrow>
                                            if forceunique \<and> (copy_soluble < 0 \<or> self_soluble < 0)
                                            then Inr (- 1, state3, maxdepth2)
                                            else if copy_soluble \<le> 0
                                            then Inr (self_soluble, state3, maxdepth2)
                                            else if self_soluble \<le> 0
                                            then Inr (copy_soluble, copy_planes state3 scopy2, maxdepth2)
                                            else Inr (copy_soluble + self_soluble, state3, maxdepth2)))))))"

definition solve_sub ::
  "nat \<Rightarrow> game_state \<Rightarrow> bool \<Rightarrow> int \<Rightarrow> int \<Rightarrow> int option
     \<Rightarrow> error + (int \<times> game_state \<times> int option)" where
  "solve_sub fuel state forceunique maxrecurse depth maxdepth =
     solve_sub_loop fuel state forceunique maxrecurse depth (note_depth maxdepth depth)"

definition MAXRECURSE :: int where
  "MAXRECURSE = 5"

definition dosolve ::
  "nat \<Rightarrow> game_state \<Rightarrow> bool \<Rightarrow> bool \<Rightarrow> int option \<Rightarrow> error + (int \<times> game_state \<times> int option)" where
  "dosolve fuel state allowguess forceunique maxdepth =
     solve_sub fuel
       (fold (\<lambda>(x, y) st. GRID_flags_set st x y (GRID_flags st x y AND NOT F_NUMBERUSED))
          (cells_xy (w state) (h state)) state)
       forceunique (if allowguess then MAXRECURSE else 0) 0 maxdepth"

section \<open>Notions of the specification\<close>


definition desc_cells :: "char \<Rightarrow> int" where
  "desc_cells c = (if 97 \<le> (of_char c :: nat) \<and> (of_char c :: nat) \<le> 122
                   then int (of_char c) - 96 else 1)"

text \<open>A piece of text stops a number when it is empty or starts with a non-digit.\<close>

definition stops :: "string \<Rightarrow> bool" where
  "stops r = (r = [] \<or> \<not> isdigit (hd r))"

text \<open>
  A state is well formed when its two planes have \<open>w * h\<close> cells, as every state
  that \<open>new_state\<close> allocates has.
\<close>

definition wf_state :: "game_state \<Rightarrow> bool" where
  "wf_state s = (length (flags s) = w s * h s \<and> length (lights s) = w s * h s)"

text \<open>
  Sight, as the specification words it: two cells see each other when they share a row or
  a column and no cell from one to the other, both included, is black.
\<close>

definition sees :: "game_state \<Rightarrow> nat \<times> nat \<Rightarrow> nat \<times> nat \<Rightarrow> bool" where
  "sees s p q =
     (case p of (x, y) \<Rightarrow> case q of (a, b) \<Rightarrow>
        (y = b \<and> list_all (\<lambda>i. GRID_flags s i y AND F_BLACK = 0) [min x a..<Suc (max x a)])
      \<or> (x = a \<and> list_all (\<lambda>j. GRID_flags s x j AND F_BLACK = 0) [min y b..<Suc (max y b)]))"

subsection \<open>The move grammar of the specification\<close>

text \<open>
  \<open>move := cmd (';' cmd)*\<close> and \<open>cmd := 'S' | 'L' int ',' int | 'I' int ',' int\<close>, with
  decimal numbers: the commands of a move are the pieces between its semicolons.
\<close>

fun split_semi :: "string \<Rightarrow> string list" where
  "split_semi [] = [[]]"
| "split_semi (c # cs) =
     (if c = CHR '';'' then [] # split_semi cs
      else (c # hd (split_semi cs)) # tl (split_semi cs))"




subsection \<open>The moves that \<open>execute_move\<close> reads\<close>

text \<open>
  The commands of a move, apart from the state. \<open>parse_cmds\<close> reads them from left to right
  as the loop of \<open>execute_move\<close> does.
\<close>

datatype cmd = Solve | Light int int | Impossible int int








definition move_pieces :: "string \<Rightarrow> string list" where
  "move_pieces m = (let ps = split_semi m in if last ps = [] then butlast ps else ps)"


text \<open>A command fits a state when the cell it names is on the grid and is not black.\<close>

definition cell_ok :: "game_state \<Rightarrow> int \<Rightarrow> int \<Rightarrow> bool" where
  "cell_ok s x y =
     (0 \<le> x \<and> 0 \<le> y \<and> x < int (w s) \<and> y < int (h s) \<and>
      GRID_flags s (nat x) (nat y) AND F_BLACK = 0)"


text \<open>
  Lit counts count lights, and a clue is a number from 0 to 4: no cell of the \<open>lights\<close>
  plane is negative.
\<close>

definition lights_nonneg :: "game_state \<Rightarrow> bool" where
  "lights_nonneg s = list_all (\<lambda>(a, b). 0 \<le> GRID_lights s a b) (cells_xy (w s) (h s))"

text \<open>The number of cells whose \<open>F_LIGHT\<close> flag is set.\<close>

definition count_lights :: "game_state \<Rightarrow> int" where
  "count_lights s =
     int (length (filter (\<lambda>(x, y). GRID_flags s x y AND F_LIGHT \<noteq> 0) (cells_xy (w s) (h s))))"

subsection \<open>Reachable states and the invariant of the lit counts\<close>

text \<open>
  The states that the specification's invariants speak of: a fresh state, made by
  \<open>new_game\<close> from a description, and every state that a move or a run of the solver
  then leaves.
\<close>

inductive reachable :: "game_state \<Rightarrow> bool" where
  fresh: "new_game params desc = Inr s \<Longrightarrow> reachable s"
| move: "reachable s \<Longrightarrow> execute_move s m = Inr (Some s') \<Longrightarrow> reachable s'"
| solve: "reachable s \<Longrightarrow> dosolve fuel s allowguess forceunique maxdepth = Inr (r, s', maxdepth')
          \<Longrightarrow> reachable s'"

text \<open>
  \<open>lit_by s q\<close> is the number of cells that hold a light and see \<open>q\<close>. The invariant: the
  count stored at a white cell is that number, and no black cell stores a negative
  number.
\<close>

definition lit_by :: "game_state \<Rightarrow> nat \<times> nat \<Rightarrow> int" where
  "lit_by s q =
     int (length (filter (\<lambda>p. GRID_flags s (fst p) (snd p) AND F_LIGHT \<noteq> 0 \<and> sees s p q)
                    (cells_xy (w s) (h s))))"

definition lit_inv :: "game_state \<Rightarrow> bool" where
  "lit_inv s =
     list_all (\<lambda>(a, b). if GRID_flags s a b AND F_BLACK = 0
                          then GRID_lights s a b = lit_by s (a, b)
                          else 0 \<le> GRID_lights s a b)
       (cells_xy (w s) (h s))"

text \<open>
  What the solver keeps: the state is well formed and stores no negative number; with
  \<open>k\<close>, the lit counts are right as well.
\<close>

definition solver_inv :: "bool \<Rightarrow> game_state \<Rightarrow> bool" where
  "solver_inv k s = (wf_state s \<and> lights_nonneg s \<and> (k \<longrightarrow> lit_inv s))"

text \<open>
  What a run of the solver from \<open>s\<close> owes: if it gives up, it is for lack of fuel, and the
  state that it leaves satisfies the invariant on the same grid.
\<close>

definition solver_post :: "bool \<Rightarrow> game_state \<Rightarrow> error + (int \<times> game_state \<times> int option) \<Rightarrow> bool" where
  "solver_post k s res =
     (case res of
        Inl e \<Rightarrow> e = OutOfFuel
      | Inr (r, st, md) \<Rightarrow> solver_inv k st \<and> w st = w s \<and> h st = h s)"

text \<open>
  A state as \<open>new_game\<close> makes it: no light, no negative number, and 0 at every white cell.
\<close>

definition fresh_inv :: "game_state \<Rightarrow> bool" where
  "fresh_inv s =
     (wf_state s \<and> nlights s = 0 \<and>
      list_all (\<lambda>(a, b). GRID_flags s a b AND F_LIGHT = 0 \<and> 0 \<le> GRID_lights s a b \<and>
                  (GRID_flags s a b AND F_BLACK = 0 \<longrightarrow> GRID_lights s a b = 0))
        (cells_xy (w s) (h s)))"

text \<open>
  Two relations between results of the solver, for the proofs about fuel and about the
  \<open>maxdepth\<close> argument: \<open>res_le a b\<close> when \<open>b\<close> returns what \<open>a\<close> returns, and
  \<open>res_md a b\<close> when it does so up to the value behind \<open>maxdepth\<close>.
\<close>

definition res_le :: "error + 'a \<Rightarrow> error + 'a \<Rightarrow> bool" where
  "res_le a b = (\<forall>r. a = Inr r \<longrightarrow> b = Inr r)"

definition res_md ::
  "error + (int \<times> game_state \<times> int option) \<Rightarrow> error + (int \<times> game_state \<times> int option) \<Rightarrow> bool" where
  "res_md a b = (\<forall>r s m. a = Inr (r, s, m) \<longrightarrow> (\<exists>m'. b = Inr (r, s, m')))"

section \<open>Lemmas and theorems\<close>



subsection \<open>The arithmetic of \<open>int\<close>\<close>

lemma c_int_id: "- 2147483648 \<le> v \<Longrightarrow> v < 2147483648 \<Longrightarrow> c_int v = v"
  by (simp add: c_int_def)

lemma c_int_range: "- 2147483648 \<le> c_int v" "c_int v < 2147483648"
proof -
  have "0 \<le> (v + 2147483648) mod 4294967296" "(v + 2147483648) mod 4294967296 < 4294967296"
    by simp_all
  then show "- 2147483648 \<le> c_int v" "c_int v < 2147483648"
    by (simp_all add: c_int_def)
qed

lemma to_long_id: "- 9223372036854775808 \<le> v \<Longrightarrow> v \<le> 9223372036854775807 \<Longrightarrow> to_long v = v"
  by (simp add: to_long_def)

subsection \<open>Descriptions\<close>


lemma desc_cells_le: "desc_cells c \<le> 26"
  by (simp add: desc_cells_def)






subsection \<open>params\<close>

lemma isdigit_digit_char: "d < 10 \<Longrightarrow> isdigit (digit_char d)"
  by (simp add: isdigit_def digit_char_def)

lemma of_char_digit_char: "d < 10 \<Longrightarrow> int (of_char (digit_char d)) - 48 = int d"
  by (simp add: digit_char_def)

lemma show_nat_digits: "\<forall>c \<in> set (show_nat n). isdigit c"
proof (induction n rule: show_nat.induct)
  case (1 n)
  show ?case
  proof (cases "n < 10")
    case True
    then show ?thesis by (simp add: show_nat.simps [of n] isdigit_digit_char)
  next
    case False
    with 1 show ?thesis by (simp add: show_nat.simps [of n] isdigit_digit_char)
  qed
qed

lemma show_nat_not_Nil: "show_nat n \<noteq> []"
  by (simp add: show_nat.simps [of n])

lemma digits_val_append:
  "\<forall>c \<in> set xs. isdigit c \<Longrightarrow> digits_val acc (xs @ ys) = digits_val (digits_val acc xs) ys"
  by (induction xs arbitrary: acc) auto

lemma digits_val_show_nat:
  "digits_val acc (show_nat n) = acc * 10 ^ length (show_nat n) + int n"
proof (induction n arbitrary: acc rule: show_nat.induct)
  case (1 n)
  show ?case
  proof (cases "n < 10")
    case True
    then show ?thesis
      by (simp add: show_nat.simps [of n] isdigit_digit_char of_char_digit_char)
  next
    case False
    have d: "n mod 10 < 10" by simp
    have "digits_val acc (show_nat n) =
            digits_val (digits_val acc (show_nat (n div 10))) [digit_char (n mod 10)]"
      using False by (simp add: show_nat.simps [of n] digits_val_append show_nat_digits)
    also have "\<dots> = digits_val acc (show_nat (n div 10)) * 10 + int (n mod 10)"
      using d by (simp add: isdigit_digit_char of_char_digit_char)
    also have "\<dots> = (acc * 10 ^ length (show_nat (n div 10)) + int (n div 10)) * 10 + int (n mod 10)"
      using 1 [OF False] by simp
    also have "\<dots> = acc * 10 ^ length (show_nat n) + int n"
      using False by (simp add: show_nat.simps [of n] algebra_simps zdiv_int zmod_int)
    finally show ?thesis .
  qed
qed

lemma digits_val_stops: "stops r \<Longrightarrow> digits_val acc r = acc"
  by (cases r) (auto simp: stops_def)

lemma dropWhile_isdigit_stops: "stops r \<Longrightarrow> dropWhile isdigit r = r"
  by (cases r) (auto simp: stops_def)

lemma hd_show_nat_digit: "isdigit (hd (show_nat n))"
  using show_nat_digits [of n] show_nat_not_Nil [of n] by (cases "show_nat n") auto

lemma isdigit_not_space: "isdigit c \<Longrightarrow> \<not> isspace c"
  by (auto simp: isdigit_def isspace_def)

lemma isdigit_not_sign: "isdigit c \<Longrightarrow> c \<noteq> CHR ''-'' \<and> c \<noteq> CHR ''+''"
  by (auto simp: isdigit_def)

lemma atoi_show_nat: "stops r \<Longrightarrow> atoi (show_nat n @ r) = int n"
proof -
  assume r: "stops r"
  obtain c cs where sn: "show_nat n = c # cs"
    using show_nat_not_Nil [of n] by (cases "show_nat n") auto
  have c: "isdigit c" using hd_show_nat_digit [of n] sn by simp
  have dw: "dropWhile isspace (show_nat n @ r) = show_nat n @ r"
    using sn c isdigit_not_space by simp
  have "atoi (show_nat n @ r) = digits_val 0 (show_nat n @ r)"
    unfolding atoi_def dw Let_def using sn c isdigit_not_sign [of c] by simp
  also have "\<dots> = digits_val (digits_val 0 (show_nat n)) r"
    by (simp add: digits_val_append show_nat_digits)
  also have "\<dots> = int n"
    using r by (simp add: digits_val_stops digits_val_show_nat)
  finally show ?thesis .
qed

lemma dropWhile_isdigit_show_nat: "stops r \<Longrightarrow> dropWhile isdigit (show_nat n @ r) = r"
  using show_nat_digits [of n] by (simp add: dropWhile_append3 dropWhile_append2 dropWhile_isdigit_stops)

lemma EATNUM_show_int: "0 \<le> i \<Longrightarrow> stops r \<Longrightarrow> EATNUM (show_int i @ r) = (i, r)"
  by (simp add: EATNUM_def show_int_def atoi_show_nat dropWhile_isdigit_show_nat)

lemma stops_simps [simp]:
  "stops []" "stops (CHR ''x'' # t)" "stops (CHR ''b'' # t)" "stops (CHR ''s'' # t)"
  "stops (CHR ''r'' # t)"
  by (simp_all add: stops_def isdigit_def)

text \<open>
  Claim C6. Decoding the full encoding of a parameter record gives the record back, field
  for field, when \<open>w\<close>, \<open>h\<close>, \<open>blackpc\<close> and \<open>symm\<close> are not negative and
  \<open>recurse\<close> is the flag it is used as (0 or 1). The record \<open>q\<close> that \<open>decode_params\<close>
  fills in is arbitrary.
\<close>

theorem decode_encode_params:
  assumes "0 \<le> game_params.w p" "0 \<le> game_params.h p" "0 \<le> blackpc p" "0 \<le> symm p"
    and "recurse p = 0 \<or> recurse p = 1"
  shows "decode_params q (encode_params p True) = p"
proof -
  have e: "encode_params p True =
      show_int (game_params.w p) @ CHR ''x'' # show_int (game_params.h p) @ CHR ''b'' # show_int (blackpc p)
          @ CHR ''s'' # show_int (symm p) @ (if recurse p \<noteq> 0 then ''r'' else [])"
    by (simp add: encode_params_def)
  show ?thesis
    unfolding e decode_params_def using assms
    by (auto simp add: EATNUM_show_int Let_def)
qed

theorem decode_encode_params_witness:
  "decode_params \<lparr>game_params.w = 0, h = 0, blackpc = 0, symm = 0, recurse = 0\<rparr>
     (encode_params \<lparr>game_params.w = 7, h = 10, blackpc = 20, symm = 4, recurse = 1\<rparr> True)
   = \<lparr>game_params.w = 7, h = 10, blackpc = 20, symm = 4, recurse = 1\<rparr>"
  using decode_encode_params
    [of "\<lparr>game_params.w = 7, h = 10, blackpc = 20, symm = 4, recurse = 1\<rparr>"
        "\<lparr>game_params.w = 0, h = 0, blackpc = 0, symm = 0, recurse = 0\<rparr>"]
  by simp

lemmas F_defs = F_BLACK_def F_NUMBERED_def F_NUMBERUSED_def F_IMPOSSIBLE_def F_LIGHT_def F_MARK_def

lemma bit_F_BLACK: "bit F_BLACK n = (n = 0)"
  using bit_exp_iff [of 0 n, where 'a = "32 word"] by (auto simp: F_defs)
lemma bit_F_NUMBERED: "bit F_NUMBERED n = (n = 1)"
  using bit_exp_iff [of 1 n, where 'a = "32 word"] by (auto simp: F_defs)
lemma bit_F_NUMBERUSED: "bit F_NUMBERUSED n = (n = 2)"
  using bit_exp_iff [of 2 n, where 'a = "32 word"] by (auto simp: F_defs)
lemma bit_F_IMPOSSIBLE: "bit F_IMPOSSIBLE n = (n = 3)"
  using bit_exp_iff [of 3 n, where 'a = "32 word"] by (auto simp: F_defs)
lemma bit_F_LIGHT: "bit F_LIGHT n = (n = 4)"
  using bit_exp_iff [of 4 n, where 'a = "32 word"] by (auto simp: F_defs)
lemma bit_F_MARK: "bit F_MARK n = (n = 5)"
  using bit_exp_iff [of 5 n, where 'a = "32 word"] by (auto simp: F_defs)

lemmas bit_F = bit_F_BLACK bit_F_NUMBERED bit_F_NUMBERUSED bit_F_IMPOSSIBLE bit_F_LIGHT bit_F_MARK

lemma F_nonzero: "F_BLACK \<noteq> 0" "F_IMPOSSIBLE \<noteq> 0" "F_LIGHT \<noteq> 0" "F_NUMBERED \<noteq> 0"
  by (simp_all add: F_defs)


lemma and_F_BLACK_simps:
  "(v OR F_LIGHT) AND F_BLACK = v AND F_BLACK"
  "(v AND NOT F_LIGHT) AND F_BLACK = v AND F_BLACK"
  "(v AND NOT F_IMPOSSIBLE) AND F_BLACK = v AND F_BLACK"
  "(v OR F_IMPOSSIBLE) AND F_BLACK = v AND F_BLACK"
  "(v XOR F_IMPOSSIBLE) AND F_BLACK = v AND F_BLACK"
  "(v OR F_NUMBERUSED) AND F_BLACK = v AND F_BLACK"
  "(v AND NOT F_NUMBERUSED) AND F_BLACK = v AND F_BLACK"
  by (rule bit_word_eqI; auto simp: bit_simps bit_F)+

lemma and_F_LIGHT_simps:
  "(v OR F_LIGHT) AND F_LIGHT = F_LIGHT"
  "(v AND NOT F_LIGHT) AND F_LIGHT = 0"
  "(v AND NOT F_IMPOSSIBLE) AND F_LIGHT = v AND F_LIGHT"
  "(v OR F_IMPOSSIBLE) AND F_LIGHT = v AND F_LIGHT"
  "(v XOR F_IMPOSSIBLE) AND F_LIGHT = v AND F_LIGHT"
  "(v OR F_NUMBERUSED) AND F_LIGHT = v AND F_LIGHT"
  "(v AND NOT F_NUMBERUSED) AND F_LIGHT = v AND F_LIGHT"
  by (rule bit_word_eqI; auto simp: bit_simps bit_F)+

lemma and_F_IMPOSSIBLE_simps:
  "(v OR F_LIGHT) AND F_IMPOSSIBLE = v AND F_IMPOSSIBLE"
  "(v AND NOT F_LIGHT) AND F_IMPOSSIBLE = v AND F_IMPOSSIBLE"
  "(v AND NOT F_IMPOSSIBLE) AND F_IMPOSSIBLE = 0"
  "(v OR F_IMPOSSIBLE) AND F_IMPOSSIBLE = F_IMPOSSIBLE"
  by (rule bit_word_eqI; auto simp: bit_simps bit_F)+

lemma and_F_NUMBERED_simps:
  "(v OR F_LIGHT) AND F_NUMBERED = v AND F_NUMBERED"
  "(v AND NOT F_LIGHT) AND F_NUMBERED = v AND F_NUMBERED"
  "(v AND NOT F_IMPOSSIBLE) AND F_NUMBERED = v AND F_NUMBERED"
  "(v OR F_IMPOSSIBLE) AND F_NUMBERED = v AND F_NUMBERED"
  "(v XOR F_IMPOSSIBLE) AND F_NUMBERED = v AND F_NUMBERED"
  by (rule bit_word_eqI; auto simp: bit_simps bit_F)+

lemma and_F_BLACK_or_IMPOSSIBLE:
  "v AND (F_BLACK OR F_IMPOSSIBLE) = 0 \<longleftrightarrow> v AND F_BLACK = 0 \<and> v AND F_IMPOSSIBLE = 0"
  by (simp add: bit.conj_disj_distrib or_eq_0_iff)

subsection \<open>Cells and indices\<close>

lemma cell_index_less: "(x::nat) < wd \<Longrightarrow> y < ht \<Longrightarrow> y * wd + x < wd * ht"
proof -
  assume x: "x < wd" and y: "y < ht"
  have "y * wd + x < y * wd + wd" using x by simp
  also have "\<dots> = Suc y * wd" by simp
  also have "\<dots> \<le> ht * wd" using y by (intro mult_le_mono1) simp
  finally show ?thesis by (simp add: mult.commute)
qed

lemma cell_index_inj:
  assumes "(x::nat) < wd" "a < wd" "y * wd + x = b * wd + a"
  shows "x = a \<and> y = b"
proof -
  have 1: "(y * wd + x) mod wd = x" using assms(1) by simp
  have 2: "(b * wd + a) mod wd = a" using assms(2) by simp
  have 3: "(y * wd + x) div wd = y" using assms(1) by simp
  have 4: "(b * wd + a) div wd = b" using assms(2) by simp
  from 1 2 assms(3) have "x = a" by metis
  moreover from 3 4 assms(3) have "y = b" by metis
  ultimately show ?thesis by simp
qed

lemma cell_index_neq:
  "(x::nat) < wd \<Longrightarrow> a < wd \<Longrightarrow> (a, b) \<noteq> (x, y) \<Longrightarrow> y * wd + x \<noteq> b * wd + a"
  using cell_index_inj [of x wd a y b] by auto

lemma cells_xy_product: "cells_xy wd ht = List.product [0..<wd] [0..<ht]"
  by (simp add: cells_xy_def product_concat_map)

lemma set_cells_xy: "set (cells_xy wd ht) = {(x, y). x < wd \<and> y < ht}"
  by (auto simp: cells_xy_product)

lemma distinct_cells_xy: "distinct (cells_xy wd ht)"
  by (simp add: cells_xy_product distinct_product)

subsection \<open>Reading and writing the planes\<close>

lemma GRID_flags_set_fields [simp]:
  "w (GRID_flags_set s x y v) = w s" "h (GRID_flags_set s x y v) = h s"
  "nlights (GRID_flags_set s x y v) = nlights s" "lights (GRID_flags_set s x y v) = lights s"
  "completed (GRID_flags_set s x y v) = completed s"
  "used_solve (GRID_flags_set s x y v) = used_solve s"
  "length (flags (GRID_flags_set s x y v)) = length (flags s)"
  by (simp_all add: GRID_flags_set_def)

lemma GRID_lights_set_fields [simp]:
  "w (GRID_lights_set s x y v) = w s" "h (GRID_lights_set s x y v) = h s"
  "nlights (GRID_lights_set s x y v) = nlights s" "flags (GRID_lights_set s x y v) = flags s"
  "completed (GRID_lights_set s x y v) = completed s"
  "used_solve (GRID_lights_set s x y v) = used_solve s"
  "length (lights (GRID_lights_set s x y v)) = length (lights s)"
  by (simp_all add: GRID_lights_set_def)

lemma GRID_flags_GRID_lights_set [simp]:
  "GRID_flags (GRID_lights_set s x y v) a b = GRID_flags s a b"
  by (simp add: GRID_flags_def)

lemma GRID_lights_GRID_flags_set [simp]:
  "GRID_lights (GRID_flags_set s x y v) a b = GRID_lights s a b"
  by (simp add: GRID_lights_def)

lemma GRID_flags_nlights_update [simp]:
  "GRID_flags (s\<lparr>nlights := n\<rparr>) a b = GRID_flags s a b"
  "GRID_lights (s\<lparr>nlights := n\<rparr>) a b = GRID_lights s a b"
  by (simp_all add: GRID_flags_def GRID_lights_def)

lemma GRID_flags_set_same:
  "wf_state s \<Longrightarrow> x < w s \<Longrightarrow> y < h s \<Longrightarrow> GRID_flags (GRID_flags_set s x y v) x y = v"
  by (simp add: GRID_flags_def GRID_flags_set_def wf_state_def cell_index_less)

lemma GRID_flags_set_other:
  "x < w s \<Longrightarrow> a < w s \<Longrightarrow> (a, b) \<noteq> (x, y) \<Longrightarrow>
     GRID_flags (GRID_flags_set s x y v) a b = GRID_flags s a b"
  using cell_index_neq [of x "w s" a b y]
  by (simp add: GRID_flags_def GRID_flags_set_def)

lemma GRID_lights_set_same:
  "wf_state s \<Longrightarrow> x < w s \<Longrightarrow> y < h s \<Longrightarrow> GRID_lights (GRID_lights_set s x y v) x y = v"
  by (simp add: GRID_lights_def GRID_lights_set_def wf_state_def cell_index_less)

lemma GRID_lights_set_other:
  "x < w s \<Longrightarrow> a < w s \<Longrightarrow> (a, b) \<noteq> (x, y) \<Longrightarrow>
     GRID_lights (GRID_lights_set s x y v) a b = GRID_lights s a b"
  using cell_index_neq [of x "w s" a b y]
  by (simp add: GRID_lights_def GRID_lights_set_def)

lemma wf_state_GRID_set [simp]:
  "wf_state (GRID_flags_set s x y v) = wf_state s"
  "wf_state (GRID_lights_set s x y li) = wf_state s"
  "wf_state (s\<lparr>nlights := n\<rparr>) = wf_state s"
  "wf_state (s\<lparr>used_solve := u\<rparr>) = wf_state s"
  "wf_state (s\<lparr>completed := c\<rparr>) = wf_state s"
  by (simp_all add: wf_state_def)

lemma dup_game_wf: "wf_state s \<Longrightarrow> dup_game s = s"
  by (simp add: dup_game_def wf_state_def)

lemma dup_game_fields [simp]:
  "w (dup_game s) = w s" "h (dup_game s) = h s" "nlights (dup_game s) = nlights s"
  "completed (dup_game s) = completed s" "used_solve (dup_game s) = used_solve s"
  by (simp_all add: dup_game_def)

subsection \<open>\<open>add_lights\<close> and \<open>set_light\<close> keep everything but the planes\<close>

lemma add_lights_fields [simp]:
  "w (add_lights d s cs) = w s" "h (add_lights d s cs) = h s"
  "nlights (add_lights d s cs) = nlights s" "flags (add_lights d s cs) = flags s"
  "completed (add_lights d s cs) = completed s" "used_solve (add_lights d s cs) = used_solve s"
  "length (lights (add_lights d s cs)) = length (lights s)"
  unfolding add_lights_def
  by (induction cs arbitrary: s; simp add: split_beta)+

lemma wf_state_add_lights [simp]: "wf_state (add_lights d s cs) = wf_state s"
  by (simp add: wf_state_def)

lemma GRID_flags_add_lights [simp]: "GRID_flags (add_lights d s cs) a b = GRID_flags s a b"
  by (simp add: GRID_flags_def)

lemma set_light_fields:
  assumes "set_light s x y on = Inr s'"
  shows "w s' = w s" "h s' = h s" "completed s' = completed s" "used_solve s' = used_solve s"
    "length (flags s') = length (flags s)" "length (lights s') = length (lights s)"
  using assms by (auto simp: set_light_def Let_def split: if_splits)

lemma set_light_wf: "set_light s x y on = Inr s' \<Longrightarrow> wf_state s' = wf_state s"
  by (simp add: wf_state_def set_light_fields)

lemma set_light_Inl: "set_light s x y on = Inl e \<longleftrightarrow> (e = AssertFailed \<and> GRID_flags s x y AND F_BLACK \<noteq> 0)"
  by (auto simp: set_light_def Let_def)

lemma set_light_black:
  assumes "set_light s x y on = Inr s'" "wf_state s" "x < w s" "y < h s" "a < w s"
  shows "GRID_flags s' a b AND F_BLACK = GRID_flags s a b AND F_BLACK"
proof (cases "(a, b) = (x, y)")
  case True
  with assms show ?thesis
    by (auto simp: set_light_def Let_def GRID_flags_set_same and_F_BLACK_simps split: if_splits)
next
  case False
  with assms show ?thesis
    by (auto simp: set_light_def Let_def GRID_flags_set_other split: if_splits)
qed

subsection \<open>The completion test does not abort\<close>

lemma get_surrounds_Inr: "x < w s \<Longrightarrow> y < h s \<Longrightarrow> \<exists>ps. get_surrounds s x y = Inr ps"
  by (simp add: get_surrounds_def)

lemma number_correct_Inr:
  "x < w s \<Longrightarrow> y < h s \<Longrightarrow> GRID_flags s x y AND F_NUMBERED \<noteq> 0 \<Longrightarrow>
     \<exists>b. number_correct s x y = Inr b"
proof -
  assume xy: "x < w s" "y < h s" and n: "GRID_flags s x y AND F_NUMBERED \<noteq> 0"
  from get_surrounds_Inr [OF xy] obtain ps where "get_surrounds s x y = Inr ps" ..
  with n have "number_correct s x y =
      Inr (int (length (filter (\<lambda>(px, py, f). GRID_flags s px py AND F_LIGHT \<noteq> 0) ps))
           = GRID_lights s x y)"
    by (simp add: number_correct_def)
  then show ?thesis by (rule exI)
qed

lemma grid_addsup_loop_Inr:
  "\<forall>(x, y) \<in> set cells. x < w s \<and> y < h s \<Longrightarrow> \<exists>b. grid_addsup_loop s cells = Inr b"
proof (induction cells)
  case Nil
  show ?case by auto
next
  case (Cons c cells)
  obtain x y where c: "c = (x, y)" by (cases c)
  from Cons.prems c have xy: "x < w s" "y < h s" by auto
  from Cons have IH: "\<exists>b. grid_addsup_loop s cells = Inr b" by simp
  show ?case
  proof (cases "GRID_flags s x y AND F_NUMBERED = 0")
    case True
    with IH c show ?thesis by simp
  next
    case False
    with number_correct_Inr [OF xy] obtain b where "number_correct s x y = Inr b" by blast
    with False IH c show ?thesis by auto
  qed
qed

lemma grid_correct_Inr: "\<exists>b. grid_correct s = Inr b"
  using grid_addsup_loop_Inr [of "cells_xy (w s) (h s)" s]
  by (auto simp: grid_correct_def grid_addsup_def set_cells_xy)

subsection \<open>One command\<close>

lemma execute_cmd_cases:
  assumes "execute_cmd ret c move = Inr (Some (ret', rest))"
  obtains
    (S) "c = CHR ''S''" "ret' = ret\<lparr>used_solve := TRUE\<rparr>" "rest = move"
  | (L) x y where "c = CHR ''L''" "sscanf_d_d_n move = Some (int x, int y, rest)"
      "x < w ret" "y < h ret" "GRID_flags ret x y AND F_BLACK = 0"
      "set_light (GRID_flags_set ret x y (GRID_flags ret x y AND NOT F_IMPOSSIBLE)) x y
         (GRID_flags ret x y AND F_LIGHT = 0) = Inr ret'"
  | (I) x y r1 where "c = CHR ''I''" "sscanf_d_d_n move = Some (int x, int y, rest)"
      "x < w ret" "y < h ret" "GRID_flags ret x y AND F_BLACK = 0"
      "set_light ret x y False = Inr r1"
      "ret' = GRID_flags_set r1 x y (GRID_flags r1 x y XOR F_IMPOSSIBLE)"
proof (cases "c = CHR ''S''")
  case True
  with assms have "ret' = ret\<lparr>used_solve := TRUE\<rparr>" "rest = move"
    by (simp_all add: execute_cmd_def)
  with True show ?thesis by (rule S)
next
  case notS: False
  with assms have LI: "c = CHR ''L'' \<or> c = CHR ''I''"
    by (auto simp: execute_cmd_def split: if_splits)
  with assms notS obtain xi yi where sc: "sscanf_d_d_n move = Some (xi, yi, rest)"
    and rng: "\<not> (xi < 0 \<or> yi < 0 \<or> xi \<ge> int (w ret) \<or> yi \<ge> int (h ret))"
    and nb: "GRID_flags ret (nat xi) (nat yi) AND F_BLACK = 0"
    by (auto simp: execute_cmd_def Let_def split: if_splits option.splits sum.splits)
  define x y where "x = nat xi" and "y = nat yi"
  from rng have xi: "xi = int x" "yi = int y" and lt: "x < w ret" "y < h ret"
    by (auto simp: x_def y_def)
  from sc have sc': "sscanf_d_d_n move = Some (int x, int y, rest)" by (simp add: xi)
  from nb have nb': "GRID_flags ret x y AND F_BLACK = 0" by (simp add: x_def y_def)
  show ?thesis
  proof (cases "c = CHR ''L''")
    case True
    with assms sc rng nb
    have "set_light (GRID_flags_set ret x y (GRID_flags ret x y AND NOT F_IMPOSSIBLE)) x y
         (GRID_flags ret x y AND F_LIGHT = 0) = Inr ret'"
      by (auto simp: execute_cmd_def Let_def x_def y_def split: if_splits sum.splits)
    with True sc' lt nb' show ?thesis by (intro L [of x y])
  next
    case False
    with LI have cI: "c = CHR ''I''" by simp
    with assms sc rng nb notS False
    obtain r1 where "set_light ret x y False = Inr r1"
      "ret' = GRID_flags_set r1 x y (GRID_flags r1 x y XOR F_IMPOSSIBLE)"
      by (auto simp: execute_cmd_def Let_def x_def y_def split: if_splits sum.splits)
    with cI sc' lt nb' show ?thesis by (intro I [of x y r1])
  qed
qed

lemma execute_cmd_fields:
  assumes "execute_cmd ret c move = Inr (Some (ret', rest))"
  shows "w ret' = w ret" "h ret' = h ret" "completed ret' = completed ret"
    "length (flags ret') = length (flags ret)" "length (lights ret') = length (lights ret)"
  using assms
  by (cases rule: execute_cmd_cases; simp add: set_light_fields)+

lemma execute_cmd_wf:
  "execute_cmd ret c move = Inr (Some (ret', rest)) \<Longrightarrow> wf_state ret' = wf_state ret"
  by (simp add: wf_state_def execute_cmd_fields)

subsection \<open>The loop\<close>

lemma execute_move_loop_completed:
  "execute_move_loop ret move = Inr (Some ret') \<Longrightarrow> completed ret' = completed ret"
proof (induction ret move rule: execute_move_loop.induct)
  case (1 ret)
  then show ?case by simp
next
  case (2 ret c move)
  from "2.prems" obtain r1 rest where
    cmd: "execute_cmd ret c move = Inr (Some (r1, rest))"
    by (auto split: sum.splits option.splits)
  have c1: "completed r1 = completed ret" using cmd by (rule execute_cmd_fields)
  show ?case
  proof (cases "rest \<noteq> [] \<and> hd rest = CHR '';''")
    case True
    with "2.prems" cmd have "execute_move_loop r1 (tl rest) = Inr (Some ret')" by simp
    with "2.IH"(1) [OF cmd refl refl] True have "completed ret' = completed r1" by simp
    with c1 show ?thesis by simp
  next
    case False
    with "2.prems" cmd have rest: "rest = []" and "execute_move_loop r1 rest = Inr (Some ret')"
      by (auto split: if_splits)
    with "2.IH"(2) [OF cmd refl refl] False have "completed ret' = completed r1" by simp
    with c1 show ?thesis by simp
  qed
qed

text \<open>
  Claim C10. On the empty move string \<open>execute_move\<close> returns no state, whatever the
  state is.
\<close>

theorem execute_move_empty: "execute_move s [] = Inr None"
  by (simp add: execute_move_def)

text \<open>
  Claim C8. The \<open>completed\<close> flag is a one-way latch: when it is set in \<open>s\<close> and
  \<open>execute_move\<close> returns a state for some move, it is set in that state too.
\<close>

theorem completed_latch:
  assumes "completed s \<noteq> 0" and "execute_move s m = Inr (Some s')"
  shows "completed s' \<noteq> 0"
proof -
  from assms(2) obtain ret' where
    loop: "execute_move_loop (dup_game s) m = Inr (Some ret')"
    and s': "s' = ret'\<lparr>completed := 1\<rparr> \<or> s' = ret'"
    by (auto simp: execute_move_def Let_def split: if_splits sum.splits option.splits)
  from loop have "completed ret' = completed s"
    using execute_move_loop_completed [of "dup_game s" m ret'] by simp
  with s' assms(1) show ?thesis by auto
qed

theorem completed_latch_witness:
  "completed \<lparr>w = 1, h = 1, nlights = 1, lights = [1], flags = [16], completed = 1,
      used_solve = 0\<rparr> \<noteq> 0
   \<and> execute_move \<lparr>w = 1, h = 1, nlights = 1, lights = [1], flags = [16], completed = 1,
      used_solve = 0\<rparr> ''L0,0''
     = Inr (Some \<lparr>w = 1, h = 1, nlights = 0, lights = [0], flags = [0], completed = 1,
      used_solve = 0\<rparr>)
   \<and> completed \<lparr>w = 1, h = 1, nlights = 0, lights = [0], flags = [0], completed = 1,
      used_solve = 0\<rparr> \<noteq> 0"
proof -
  let ?s = "\<lparr>w = 1, h = 1, nlights = 1, lights = [1], flags = [16], completed = 1,
      used_solve = 0\<rparr>"
  let ?t = "\<lparr>w = 1, h = 1, nlights = 0, lights = [0], flags = [0], completed = 1,
      used_solve = 0\<rparr>"
  have c: "completed ?s \<noteq> 0" by simp
  have e: "execute_move ?s ''L0,0'' = Inr (Some ?t)" by code_simp
  from completed_latch [OF c e] c e show ?thesis by simp
qed

lemma res_le_refl: "res_le a a"
  by (simp add: res_le_def)

lemma res_le_if:
  "(c \<Longrightarrow> res_le a a') \<Longrightarrow> (\<not> c \<Longrightarrow> res_le b b') \<Longrightarrow>
     res_le (if c then a else b) (if c then a' else b')"
  by simp

lemma res_le_case_sum:
  "(\<And>v. m = Inr v \<Longrightarrow> res_le (f v) (f' v)) \<Longrightarrow> res_le (case_sum Inl f m) (case_sum Inl f' m)"
  by (cases m) (simp_all add: res_le_def)

lemma res_le_bind:
  "res_le m m' \<Longrightarrow> (\<And>v. m = Inr v \<Longrightarrow> res_le (f v) (f' v)) \<Longrightarrow>
     res_le (case_sum Inl f m) (case_sum Inl f' m')"
  by (cases m) (auto simp add: res_le_def)

lemma res_le_case_prod:
  "(\<And>a b. p = (a, b) \<Longrightarrow> res_le (f a b) (f' a b)) \<Longrightarrow> res_le (case_prod f p) (case_prod f' p)"
  by (cases p) simp

lemma res_le_case_bool:
  "res_le a a' \<Longrightarrow> res_le b b' \<Longrightarrow> res_le (case_bool a b c) (case_bool a' b' c)"
  by (cases c) simp_all

lemma res_le_Let:
  "(\<And>x. x = v \<Longrightarrow> res_le (f x) (f' x)) \<Longrightarrow> res_le (Let v f) (Let v f')"
  by simp

lemma solve_sub_loop_Suc_le:
  "res_le (solve_sub_loop n s fu mr d md) (solve_sub_loop (Suc n) s fu mr d md)"
proof (induction n arbitrary: s d md)
  case 0
  show ?case by (simp add: res_le_def)
next
  case (Suc n)
  show ?case
    apply (subst solve_sub_loop.simps(2) [of "Suc n"])
    apply (subst solve_sub_loop.simps(2) [of n])
    apply (intro res_le_if res_le_case_sum res_le_bind res_le_case_prod res_le_case_bool
        res_le_Let res_le_refl Suc.IH)
    done
qed



lemma res_md_Inr: "res_md (Inr (r, s, m)) (Inr (r, s, m'))"
  by (simp add: res_md_def)

lemma res_md_Inl: "res_md (Inl e) b"
  by (simp add: res_md_def)

lemma res_md_if:
  "(c \<Longrightarrow> res_md a a') \<Longrightarrow> (\<not> c \<Longrightarrow> res_md b b') \<Longrightarrow>
     res_md (if c then a else b) (if c then a' else b')"
  by simp

lemma res_md_case_sum:
  "(\<And>v. m = Inr v \<Longrightarrow> res_md (f v) (f' v)) \<Longrightarrow> res_md (case_sum Inl f m) (case_sum Inl f' m)"
  by (cases m) (simp_all add: res_md_def)

lemma res_md_rec:
  "res_md m m' \<Longrightarrow> (\<And>r s x x'. res_md (f r s x) (f' r s x')) \<Longrightarrow>
     res_md (case_sum Inl (\<lambda>(r, s, x). f r s x) m) (case_sum Inl (\<lambda>(r, s, x). f' r s x) m')"
proof (cases m)
  case (Inl e)
  then show ?thesis by (simp add: res_md_def)
next
  case (Inr v)
  assume mm: "res_md m m'" and ff: "\<And>r s x x'. res_md (f r s x) (f' r s x')"
  obtain r s x where v: "v = (r, s, x)" by (cases v)
  from mm Inr v obtain x' where m': "m' = Inr (r, s, x')" by (auto simp: res_md_def)
  from ff [of r s x x'] show ?thesis by (simp add: Inr v m')
qed

lemma res_md_case_prod:
  "(\<And>a b. p = (a, b) \<Longrightarrow> res_md (f a b) (f' a b)) \<Longrightarrow> res_md (case_prod f p) (case_prod f' p)"
  by (cases p) simp

lemma res_md_case_bool:
  "res_md a a' \<Longrightarrow> res_md b b' \<Longrightarrow> res_md (case_bool a b c) (case_bool a' b' c)"
  by (cases c) simp_all

lemma res_md_Let:
  "(\<And>x. x = v \<Longrightarrow> res_md (f x) (f' x)) \<Longrightarrow> res_md (Let v f) (Let v f')"
  by simp

lemma solve_sub_loop_md:
  "res_md (solve_sub_loop n s fu mr d md) (solve_sub_loop n s fu mr d md')"
proof (induction n arbitrary: s d md md')
  case 0
  show ?case by (simp add: res_md_def)
next
  case (Suc n)
  show ?case
    apply (subst solve_sub_loop.simps(2) [of n _ _ _ _ md])
    apply (subst solve_sub_loop.simps(2) [of n _ _ _ _ md'])
    apply (intro res_md_if res_md_case_sum res_md_case_prod res_md_case_bool
        res_md_Let res_md_Inr res_md_Inl res_md_rec Suc.IH)
    done
qed


lemma solve_sub_loop_fuel:
  "solve_sub_loop n s fu mr d md = Inr r \<Longrightarrow> solve_sub_loop (n + k) s fu mr d md = Inr r"
proof (induction k)
  case 0
  then show ?case by simp
next
  case (Suc k)
  then have "solve_sub_loop (n + k) s fu mr d md = Inr r" by simp
  with solve_sub_loop_Suc_le [of "n + k" s fu mr d md] show ?case
    by (simp add: res_le_def)
qed

lemma dosolve_fuel_md:
  assumes "dosolve n s ag fu None = Inr (r, st, None)"
  shows "\<exists>md'. dosolve (n + k) s ag fu md = Inr (r, st, md')"
proof -
  let ?s = "fold (\<lambda>(x, y) st. GRID_flags_set st x y (GRID_flags st x y AND NOT F_NUMBERUSED))
              (cells_xy (w s) (h s)) s"
  let ?mr = "if ag then MAXRECURSE else 0"
  from assms have "solve_sub_loop n ?s fu ?mr 0 None = Inr (r, st, None)"
    by (simp add: dosolve_def solve_sub_def note_depth_def)
  with solve_sub_loop_md [of n ?s fu ?mr 0 None "note_depth md 0"]
  obtain md' where "solve_sub_loop n ?s fu ?mr 0 (note_depth md 0) = Inr (r, st, md')"
    by (auto simp: res_md_def)
  then have "solve_sub_loop (n + k) ?s fu ?mr 0 (note_depth md 0) = Inr (r, st, md')"
    by (rule solve_sub_loop_fuel)
  then show ?thesis by (auto simp: dosolve_def solve_sub_def)
qed

text \<open>
  Claim C5. On the fresh 2x2 grid without black squares, \<open>dosolve\<close> with guessing allowed
  and a unique solution required returns 2, the two diagonals, whatever \<open>maxdepth\<close>
  points to: with 4 turns of fuel, and so with any more.
\<close>

theorem dosolve_2x2_returns_2:
  "new_game \<lparr>game_params.w = 2, h = 2, blackpc = 20, symm = 0, recurse = 1\<rparr> ''d''
     = Inr \<lparr>game_state.w = 2, h = 2, nlights = 0, lights = [0, 0, 0, 0], flags = [0, 0, 0, 0],
            completed = 0, used_solve = 0\<rparr>
   \<and> (\<forall>k md. \<exists>st md'.
        dosolve (4 + k)
          \<lparr>game_state.w = 2, h = 2, nlights = 0, lights = [0, 0, 0, 0], flags = [0, 0, 0, 0],
            completed = 0, used_solve = 0\<rparr> True True md = Inr (2, st, md'))"
proof -
  let ?s = "\<lparr>game_state.w = 2, h = 2, nlights = 0, lights = [0, 0, 0, 0], flags = [0, 0, 0, 0],
            completed = 0, used_solve = 0\<rparr>"
  let ?t = "\<lparr>game_state.w = 2, h = 2, nlights = 1, lights = [2, 1, 1, 2],
            flags = [8, 16, 16, 0], completed = 0, used_solve = 0\<rparr>"
  have ng: "new_game \<lparr>game_params.w = 2, h = 2, blackpc = 20, symm = 0, recurse = 1\<rparr> ''d''
     = Inr ?s"
    by code_simp
  have ev: "dosolve 4 ?s True True None = Inr (2, ?t, None)"
    by code_simp
  have "\<exists>st md'. dosolve (4 + k) ?s True True md = Inr (2, st, md')" for k md
    using dosolve_fuel_md [OF ev, of k md] by blast
  with ng show ?thesis by blast
qed

theorem dosolve_2x2_returns_2_witness:
  "\<exists>st md'. dosolve 9
          \<lparr>game_state.w = 2, h = 2, nlights = 0, lights = [0, 0, 0, 0], flags = [0, 0, 0, 0],
            completed = 0, used_solve = 0\<rparr> True True (Some 0) = Inr (2, st, md')"
  using dosolve_2x2_returns_2 [THEN conjunct2, THEN spec, of 5, THEN spec, of "Some 0"]
  by simp

text \<open>
  Claim C1. The claim fails in the code: after \<open>dosolve\<close> on the fresh 2x2 grid without
  black squares, called as \<open>solve_game\<close> calls it, two cells hold a light and \<open>nlights\<close>
  is 1, in a state that is reachable. Where the copy is solved and \<open>state\<close> is not,
  \<open>solve_sub\<close> copies the two planes back and leaves \<open>nlights\<close> as the failed branch
  left it.
\<close>

theorem dosolve_nlights_stale:
  "reachable \<lparr>game_state.w = 2, h = 2, nlights = 1, lights = [2, 1, 1, 2],
               flags = [8, 16, 16, 0], completed = 0, used_solve = 0\<rparr>
   \<and> (\<forall>k. dosolve (4 + k)
          \<lparr>game_state.w = 2, h = 2, nlights = 0, lights = [0, 0, 0, 0], flags = [0, 0, 0, 0],
            completed = 0, used_solve = 0\<rparr> True False None
        = Inr (1, \<lparr>game_state.w = 2, h = 2, nlights = 1, lights = [2, 1, 1, 2],
                    flags = [8, 16, 16, 0], completed = 0, used_solve = 0\<rparr>, None))
   \<and> nlights \<lparr>game_state.w = 2, h = 2, nlights = 1, lights = [2, 1, 1, 2],
               flags = [8, 16, 16, 0], completed = 0, used_solve = 0\<rparr> = 1
   \<and> count_lights \<lparr>game_state.w = 2, h = 2, nlights = 1, lights = [2, 1, 1, 2],
               flags = [8, 16, 16, 0], completed = 0, used_solve = 0\<rparr> = 2"
proof -
  let ?s = "\<lparr>game_state.w = 2, h = 2, nlights = 0, lights = [0, 0, 0, 0], flags = [0, 0, 0, 0],
            completed = 0, used_solve = 0\<rparr>"
  let ?t = "\<lparr>game_state.w = 2, h = 2, nlights = 1, lights = [2, 1, 1, 2],
            flags = [8, 16, 16, 0], completed = 0, used_solve = 0\<rparr>"
  let ?c = "fold (\<lambda>(x, y) st. GRID_flags_set st x y (GRID_flags st x y AND NOT F_NUMBERUSED))
              (cells_xy (w ?s) (h ?s)) ?s"
  have ng: "new_game \<lparr>game_params.w = 2, h = 2, blackpc = 20, symm = 0, recurse = 1\<rparr> ''d''
     = Inr ?s"
    by code_simp
  have ev: "dosolve 4 ?s True False None = Inr (1, ?t, None)" by code_simp
  from ng have "reachable ?s" by (rule reachable.fresh)
  then have r: "reachable ?t" using ev by (rule reachable.solve)
  from ev have "solve_sub_loop 4 ?c False MAXRECURSE 0 None = Inr (1, ?t, None)"
    by (simp add: dosolve_def solve_sub_def note_depth_def)
  then have "solve_sub_loop (4 + k) ?c False MAXRECURSE 0 None = Inr (1, ?t, None)" for k
    by (rule solve_sub_loop_fuel)
  then have run: "dosolve (4 + k) ?s True False None = Inr (1, ?t, None)" for k
    by (simp add: dosolve_def solve_sub_def note_depth_def)
  have n: "nlights ?t = 1" by simp
  have c: "count_lights ?t = 2" by code_simp
  from r run n c show ?thesis by blast
qed

subsection \<open>The four loops of \<open>list_lights\<close>\<close>

lemma ll_left_run:
  "ll_left s y k k \<le> k \<and>
   (\<forall>i. ll_left s y k k \<le> i \<and> i < k \<longrightarrow> GRID_flags s i y AND F_BLACK = 0) \<and>
   (ll_left s y k k = 0 \<or> GRID_flags s (ll_left s y k k - 1) y AND F_BLACK \<noteq> 0)"
proof (induction k)
  case 0
  show ?case by simp
next
  case (Suc k)
  show ?case
  proof (cases "GRID_flags s k y AND F_BLACK \<noteq> 0")
    case True
    then show ?thesis by auto
  next
    case False
    then have eq: "ll_left s y (Suc k) (Suc k) = ll_left s y k k" by simp
    from Suc False show ?thesis unfolding eq
      by (auto simp: less_Suc_eq)
  qed
qed

lemma ll_up_run:
  "ll_up s x k k \<le> k \<and>
   (\<forall>j. ll_up s x k k \<le> j \<and> j < k \<longrightarrow> GRID_flags s x j AND F_BLACK = 0) \<and>
   (ll_up s x k k = 0 \<or> GRID_flags s x (ll_up s x k k - 1) AND F_BLACK \<noteq> 0)"
proof (induction k)
  case 0
  show ?case by simp
next
  case (Suc k)
  show ?case
  proof (cases "GRID_flags s x k AND F_BLACK \<noteq> 0")
    case True
    then show ?thesis by auto
  next
    case False
    then have eq: "ll_up s x (Suc k) (Suc k) = ll_up s x k k" by simp
    from Suc False show ?thesis unfolding eq
      by (auto simp: less_Suc_eq)
  qed
qed

lemma ll_right_run:
  "k \<le> w s \<Longrightarrow>
   k \<le> Suc (ll_right s y (Suc k) k) \<and> ll_right s y (Suc k) k < max (Suc k) (w s) \<and> k \<le> ll_right s y (Suc k) k \<and>
   (\<forall>i. k < i \<and> i \<le> ll_right s y (Suc k) k \<longrightarrow> GRID_flags s i y AND F_BLACK = 0) \<and>
   (w s \<le> Suc (ll_right s y (Suc k) k) \<or> GRID_flags s (Suc (ll_right s y (Suc k) k)) y AND F_BLACK \<noteq> 0)"
proof (induction "w s - k" arbitrary: k)
  case 0
  then have "\<not> Suc k < w s" by simp
  then show ?case by (auto simp: ll_right.simps [of s y "Suc k"])
next
  case (Suc n)
  show ?case
  proof (cases "Suc k < w s")
    case False
    then show ?thesis by (auto simp: ll_right.simps [of s y "Suc k"])
  next
    case lt: True
    show ?thesis
    proof (cases "GRID_flags s (Suc k) y AND F_BLACK \<noteq> 0")
      case True
      with lt show ?thesis by (auto simp: ll_right.simps [of s y "Suc k"])
    next
      case False
      with lt have eq: "ll_right s y (Suc k) k = ll_right s y (Suc (Suc k)) (Suc k)"
        by (simp add: ll_right.simps [of s y "Suc k"])
      from Suc.hyps(2) lt have n: "n = w s - Suc k" by simp
      from lt have le: "Suc k \<le> w s" by simp
      note IH = Suc.hyps(1) [OF n le]
      have run: "GRID_flags s i y AND F_BLACK = 0"
        if "k < i" "i \<le> ll_right s y (Suc (Suc k)) (Suc k)" for i
      proof (cases "i = Suc k")
        case True
        with False show ?thesis by simp
      next
        case False
        with that have "Suc k < i" by simp
        with IH that show ?thesis by blast
      qed
      from IH lt run show ?thesis unfolding eq by auto
    qed
  qed
qed


lemma ll_down_run:
  "k \<le> h s \<Longrightarrow>
   k \<le> Suc (ll_down s x (Suc k) k) \<and> ll_down s x (Suc k) k < max (Suc k) (h s) \<and> k \<le> ll_down s x (Suc k) k \<and>
   (\<forall>j. k < j \<and> j \<le> ll_down s x (Suc k) k \<longrightarrow> GRID_flags s x j AND F_BLACK = 0) \<and>
   (h s \<le> Suc (ll_down s x (Suc k) k) \<or> GRID_flags s x (Suc (ll_down s x (Suc k) k)) AND F_BLACK \<noteq> 0)"
proof (induction "h s - k" arbitrary: k)
  case 0
  then have "\<not> Suc k < h s" by simp
  then show ?case by (auto simp: ll_down.simps [of s x "Suc k"])
next
  case (Suc n)
  show ?case
  proof (cases "Suc k < h s")
    case False
    then show ?thesis by (auto simp: ll_down.simps [of s x "Suc k"])
  next
    case lt: True
    show ?thesis
    proof (cases "GRID_flags s x (Suc k) AND F_BLACK \<noteq> 0")
      case True
      with lt show ?thesis by (auto simp: ll_down.simps [of s x "Suc k"])
    next
      case False
      with lt have eq: "ll_down s x (Suc k) k = ll_down s x (Suc (Suc k)) (Suc k)"
        by (simp add: ll_down.simps [of s x "Suc k"])
      from Suc.hyps(2) lt have n: "n = h s - Suc k" by simp
      from lt have le: "Suc k \<le> h s" by simp
      note IH = Suc.hyps(1) [OF n le]
      have run: "GRID_flags s x j AND F_BLACK = 0"
        if "k < j" "j \<le> ll_down s x (Suc (Suc k)) (Suc k)" for j
      proof (cases "j = Suc k")
        case True
        with False show ?thesis by simp
      next
        case False
        with that have "Suc k < j" by simp
        with IH that show ?thesis by blast
      qed
      from IH lt run show ?thesis unfolding eq by auto
    qed
  qed
qed

subsection \<open>The cells of \<open>FOREACHLIT\<close>\<close>

lemma list_lights_fields [simp]:
  "ox (list_lights s x y origin) = x" "oy (list_lights s x y origin) = y"
  "include_origin (list_lights s x y origin) = origin"
  "minx (list_lights s x y origin) = ll_left s y x x"
  "maxx (list_lights s x y origin) = ll_right s y (Suc x) x"
  "miny (list_lights s x y origin) = ll_up s x y y"
  "maxy (list_lights s x y origin) = ll_down s x (Suc y) y"
  by (simp_all add: list_lights_def)

lemma list_lights_bounds:
  assumes "x < w s" "y < h s"
  shows "minx (list_lights s x y origin) \<le> x" "x \<le> maxx (list_lights s x y origin)"
    "maxx (list_lights s x y origin) < w s"
    "miny (list_lights s x y origin) \<le> y" "y \<le> maxy (list_lights s x y origin)"
    "maxy (list_lights s x y origin) < h s"
  using ll_left_run [of s y x] ll_right_run [of x s y] ll_up_run [of s x y] ll_down_run [of y s x]
    assms
  by auto

lemma set_FOREACHLIT:
  "set (FOREACHLIT lld) =
     {(i, oy lld) | i. minx lld \<le> i \<and> i \<le> maxx lld \<and> i \<noteq> ox lld}
   \<union> {(ox lld, j) | j. miny lld \<le> j \<and> j \<le> maxy lld \<and> (include_origin lld \<or> j \<noteq> oy lld)}"
  by (auto simp: FOREACHLIT_def)

lemma distinct_FOREACHLIT: "distinct (FOREACHLIT lld)"
  by (auto simp: FOREACHLIT_def distinct_map inj_on_def)

lemma FOREACHLIT_in_range:
  assumes "x < w s" "y < h s" "(a, b) \<in> set (FOREACHLIT (list_lights s x y origin))"
  shows "a < w s \<and> b < h s"
  using assms list_lights_bounds [OF assms(1,2), of origin]
  by (auto simp: set_FOREACHLIT)

text \<open>Every cell that \<open>FOREACHLIT\<close> visits, the origin apart, is white.\<close>

lemma FOREACHLIT_white:
  assumes "(a, b) \<in> set (FOREACHLIT (list_lights s x y origin))" "(a, b) \<noteq> (x, y)"
    and "x < w s" "y < h s"
  shows "GRID_flags s a b AND F_BLACK = 0"
proof -
  from assms(1) consider
    (row) "b = y" "ll_left s y x x \<le> a" "a \<le> ll_right s y (Suc x) x" "a \<noteq> x"
  | (col) "a = x" "ll_up s x y y \<le> b" "b \<le> ll_down s x (Suc y) y"
    by (auto simp: set_FOREACHLIT)
  then show ?thesis
  proof cases
    case row
    then have "a < x \<or> x < a" by auto
    then show ?thesis
      using row ll_left_run [of s y x] ll_right_run [of x s y] assms(3) by auto
  next
    case col
    with assms(2) have "b < y \<or> y < b" by auto
    then show ?thesis
      using col ll_up_run [of s x y] ll_down_run [of y s x] assms(4) by auto
  qed
qed

lemma sees_alt:
  "sees s (x, y) (a, b) \<longleftrightarrow>
     (y = b \<and> (\<forall>i. min x a \<le> i \<and> i \<le> max x a \<longrightarrow> GRID_flags s i y AND F_BLACK = 0))
   \<or> (x = a \<and> (\<forall>j. min y b \<le> j \<and> j \<le> max y b \<longrightarrow> GRID_flags s x j AND F_BLACK = 0))"
  by (auto simp: sees_def list_all_iff less_Suc_eq_le)

lemma row_in_run:
  assumes "x < w s" "a < w s"
    and "\<forall>i. min x a \<le> i \<and> i \<le> max x a \<longrightarrow> GRID_flags s i y AND F_BLACK = 0"
  shows "ll_left s y x x \<le> a \<and> a \<le> ll_right s y (Suc x) x"
proof -
  let ?l = "ll_left s y x x" and ?r = "ll_right s y (Suc x) x"
  note L = ll_left_run [of s y x] and R = ll_right_run [of x s y]
  have "?l \<le> a"
  proof (rule ccontr)
    assume "\<not> ?l \<le> a"
    then have lt: "a < ?l" by simp
    with L have "GRID_flags s (?l - 1) y AND F_BLACK \<noteq> 0" by auto
    moreover from lt L have "min x a \<le> ?l - 1 \<and> ?l - 1 \<le> max x a" by auto
    ultimately show False using assms(3) by blast
  qed
  moreover have "a \<le> ?r"
  proof (rule ccontr)
    assume "\<not> a \<le> ?r"
    then have lt: "?r < a" by simp
    with assms(1,2) R have "GRID_flags s (Suc ?r) y AND F_BLACK \<noteq> 0" by auto
    moreover from lt R assms(1) have "min x a \<le> Suc ?r \<and> Suc ?r \<le> max x a" by auto
    ultimately show False using assms(3) by blast
  qed
  ultimately show ?thesis ..
qed

lemma col_in_run:
  assumes "y < h s" "b < h s"
    and "\<forall>j. min y b \<le> j \<and> j \<le> max y b \<longrightarrow> GRID_flags s x j AND F_BLACK = 0"
  shows "ll_up s x y y \<le> b \<and> b \<le> ll_down s x (Suc y) y"
proof -
  let ?l = "ll_up s x y y" and ?r = "ll_down s x (Suc y) y"
  note L = ll_up_run [of s x y] and R = ll_down_run [of y s x]
  have "?l \<le> b"
  proof (rule ccontr)
    assume "\<not> ?l \<le> b"
    then have lt: "b < ?l" by simp
    with L have "GRID_flags s x (?l - 1) AND F_BLACK \<noteq> 0" by auto
    moreover from lt L have "min y b \<le> ?l - 1 \<and> ?l - 1 \<le> max y b" by auto
    ultimately show False using assms(3) by blast
  qed
  moreover have "b \<le> ?r"
  proof (rule ccontr)
    assume "\<not> b \<le> ?r"
    then have lt: "?r < b" by simp
    with assms(1,2) R have "GRID_flags s x (Suc ?r) AND F_BLACK \<noteq> 0" by auto
    moreover from lt R assms(1) have "min y b \<le> Suc ?r \<and> Suc ?r \<le> max y b" by auto
    ultimately show False using assms(3) by blast
  qed
  ultimately show ?thesis ..
qed

lemma run_white_row:
  assumes "x < w s" "GRID_flags s x y AND F_BLACK = 0"
    and "ll_left s y x x \<le> i" "i \<le> ll_right s y (Suc x) x"
  shows "GRID_flags s i y AND F_BLACK = 0"
proof -
  consider "i < x" | "i = x" | "x < i" by linarith
  then show ?thesis
    using assms ll_left_run [of s y x] ll_right_run [of x s y] by cases auto
qed

lemma run_white_col:
  assumes "y < h s" "GRID_flags s x y AND F_BLACK = 0"
    and "ll_up s x y y \<le> j" "j \<le> ll_down s x (Suc y) y"
  shows "GRID_flags s x j AND F_BLACK = 0"
proof -
  consider "j < y" | "j = y" | "y < j" by linarith
  then show ?thesis
    using assms ll_up_run [of s x y] ll_down_run [of y s x] by cases auto
qed

lemma sees_iff_FOREACHLIT:
  assumes "x < w s" "y < h s" "a < w s" "b < h s" "GRID_flags s x y AND F_BLACK = 0"
  shows "sees s (x, y) (a, b) \<longleftrightarrow> (a, b) \<in> set (FOREACHLIT (list_lights s x y True))"
proof
  assume "sees s (x, y) (a, b)"
  then consider
    (row) "y = b" "\<forall>i. min x a \<le> i \<and> i \<le> max x a \<longrightarrow> GRID_flags s i y AND F_BLACK = 0"
  | (col) "x = a" "\<forall>j. min y b \<le> j \<and> j \<le> max y b \<longrightarrow> GRID_flags s x j AND F_BLACK = 0"
    by (auto simp: sees_alt)
  then show "(a, b) \<in> set (FOREACHLIT (list_lights s x y True))"
  proof cases
    case row
    from row_in_run [OF assms(1,3) row(2)] row(1) list_lights_bounds [OF assms(1,2), of True]
    show ?thesis by (cases "a = x") (auto simp: set_FOREACHLIT)
  next
    case col
    from col_in_run [OF assms(2,4) col(2)] col(1)
    show ?thesis by (auto simp: set_FOREACHLIT)
  qed
next
  assume "(a, b) \<in> set (FOREACHLIT (list_lights s x y True))"
  then consider
    (row) "b = y" "ll_left s y x x \<le> a" "a \<le> ll_right s y (Suc x) x"
  | (col) "a = x" "ll_up s x y y \<le> b" "b \<le> ll_down s x (Suc y) y"
    by (auto simp: set_FOREACHLIT)
  then show "sees s (x, y) (a, b)"
  proof cases
    case row
    note B = list_lights_bounds [OF assms(1,2), of True]
    have "GRID_flags s i y AND F_BLACK = 0" if "min x a \<le> i" "i \<le> max x a" for i
    proof (rule run_white_row [OF assms(1,5)])
      from that row B show "ll_left s y x x \<le> i" by (auto simp: min_def split: if_splits)
      from that row B show "i \<le> ll_right s y (Suc x) x" by (auto simp: max_def split: if_splits)
    qed
    with row(1) show ?thesis by (auto simp: sees_alt)
  next
    case col
    note B = list_lights_bounds [OF assms(1,2), of True]
    have "GRID_flags s x j AND F_BLACK = 0" if "min y b \<le> j" "j \<le> max y b" for j
    proof (rule run_white_col [OF assms(2,5)])
      from that col B show "ll_up s x y y \<le> j" by (auto simp: min_def split: if_splits)
      from that col B show "j \<le> ll_down s x (Suc y) y" by (auto simp: max_def split: if_splits)
    qed
    with col(1) show ?thesis by (auto simp: sees_alt)
  qed
qed

subsection \<open>\<open>add_lights\<close>, cell by cell\<close>

lemma add_lights_Cons:
  "add_lights d s ((a, b) # cs) = add_lights d (GRID_lights_set s a b (GRID_lights s a b + d)) cs"
  by (simp add: add_lights_def)

lemma add_lights_Nil [simp]: "add_lights d s [] = s"
  by (simp add: add_lights_def)

lemma GRID_lights_add_lights:
  assumes "wf_state s" "distinct cs" "\<forall>(i, j) \<in> set cs. i < w s \<and> j < h s" "a < w s" "b < h s"
  shows "GRID_lights (add_lights d s cs) a b = GRID_lights s a b + (if (a, b) \<in> set cs then d else 0)"
  using assms
proof (induction cs arbitrary: s)
  case Nil
  show ?case by simp
next
  case (Cons c cs)
  obtain i j where c: "c = (i, j)" by (cases c)
  let ?s = "GRID_lights_set s i j (GRID_lights s i j + d)"
  from Cons.prems c have ij: "i < w s" "j < h s" and nin: "(i, j) \<notin> set cs" by auto
  have IH: "GRID_lights (add_lights d ?s cs) a b
      = GRID_lights ?s a b + (if (a, b) \<in> set cs then d else 0)"
    using Cons.prems by (intro Cons.IH) auto
  show ?case
  proof (cases "(a, b) = (i, j)")
    case True
    with nin IH Cons.prems(1) ij show ?thesis
      by (simp add: c add_lights_Cons GRID_lights_set_same)
  next
    case False
    with IH ij Cons.prems(4) show ?thesis
      by (auto simp add: c add_lights_Cons GRID_lights_set_other)
  qed
qed

lemma and_F_LIGHT_bit: "v AND F_LIGHT = 0 \<longleftrightarrow> \<not> bit v 4"
proof
  assume z: "v AND F_LIGHT = 0"
  show "\<not> bit v 4"
  proof
    assume "bit v 4"
    then have "bit (v AND F_LIGHT) 4" by (simp add: bit_and_iff bit_F)
    with z show False by simp
  qed
next
  assume nb: "\<not> bit v 4"
  show "v AND F_LIGHT = 0"
    by (rule bit_word_eqI) (use nb in \<open>auto simp: bit_and_iff bit_F\<close>)
qed

lemma light_flip:
  "v AND F_LIGHT = 0 \<Longrightarrow> v OR F_LIGHT = v XOR F_LIGHT"
  "v AND F_LIGHT \<noteq> 0 \<Longrightarrow> v AND NOT F_LIGHT = v XOR F_LIGHT"
  by (rule bit_word_eqI; auto simp: bit_simps bit_F and_F_LIGHT_bit)+

lemma sees_cong:
  assumes "\<And>i j. i < w s \<Longrightarrow> GRID_flags s' i j AND F_BLACK = GRID_flags s i j AND F_BLACK"
    and "x < w s" "a < w s"
  shows "sees s' (x, y) (a, b) = sees s (x, y) (a, b)"
proof -
  have "GRID_flags s' i y AND F_BLACK = GRID_flags s i y AND F_BLACK" if "i \<le> max x a" for i
    using that assms by (intro assms(1)) auto
  moreover have "GRID_flags s' x j AND F_BLACK = GRID_flags s x j AND F_BLACK" for j
    using assms by simp
  ultimately show ?thesis by (simp add: sees_alt)
qed

lemma set_light_change:
  fixes n :: int and d :: int
  assumes wf: "wf_state s" and xy: "x < w s" "y < h s"
    and white: "GRID_flags s x y AND F_BLACK = 0"
    and v: "v AND F_BLACK = 0"
  defines "st \<equiv> (GRID_flags_set s x y v)\<lparr>nlights := n\<rparr>"
  defines "s' \<equiv> add_lights d st (FOREACHLIT (list_lights st x y True))"
  shows "flags s' = (flags s)[y * w s + x := v]" "nlights s' = n"
    "w s' = w s" "h s' = h s" "completed s' = completed s" "used_solve s' = used_solve s"
    "length (lights s') = length (lights s)"
    "\<And>a b. a < w s \<Longrightarrow> b < h s \<Longrightarrow>
       GRID_lights s' a b = GRID_lights s a b + (if sees s (x, y) (a, b) then d else 0)"
proof -
  show "flags s' = (flags s)[y * w s + x := v]" "nlights s' = n"
    "w s' = w s" "h s' = h s" "completed s' = completed s" "used_solve s' = used_solve s"
    "length (lights s') = length (lights s)"
    by (simp_all add: s'_def st_def GRID_flags_set_def)
  have wst: "wf_state st" "w st = w s" "h st = h s" using wf by (simp_all add: st_def)
  have black: "GRID_flags st i j AND F_BLACK = GRID_flags s i j AND F_BLACK" if "i < w s" for i j
  proof (cases "(i, j) = (x, y)")
    case True
    with wf xy white v show ?thesis by (simp add: st_def GRID_flags_set_same)
  next
    case False
    with xy that show ?thesis by (simp add: st_def GRID_flags_set_other)
  qed
  have white': "GRID_flags st x y AND F_BLACK = 0" using black [OF xy(1)] white by simp
  fix a b assume ab: "a < w s" "b < h s"
  let ?cs = "FOREACHLIT (list_lights st x y True)"
  have rng: "\<forall>(i, j) \<in> set ?cs. i < w st \<and> j < h st"
    using FOREACHLIT_in_range [of x st y _ _ True] xy wst by auto
  have "GRID_lights s' a b = GRID_lights st a b + (if (a, b) \<in> set ?cs then d else 0)"
    unfolding s'_def using wst ab
    by (intro GRID_lights_add_lights [OF wst(1) distinct_FOREACHLIT rng]) simp_all
  moreover have "GRID_lights st a b = GRID_lights s a b" by (simp add: st_def)
  moreover have "(a, b) \<in> set ?cs \<longleftrightarrow> sees st (x, y) (a, b)"
    using sees_iff_FOREACHLIT [of x st y a b] xy ab wst white' by simp
  moreover have "sees st (x, y) (a, b) = sees s (x, y) (a, b)"
    using black xy ab by (intro sees_cong) auto
  ultimately show "GRID_lights s' a b = GRID_lights s a b + (if sees s (x, y) (a, b) then d else 0)"
    by simp
qed

lemma set_light_effect:
  assumes "wf_state s" "x < w s" "y < h s" "GRID_flags s x y AND F_BLACK = 0"
  shows "(on = (GRID_flags s x y AND F_LIGHT \<noteq> 0) \<longrightarrow> set_light s x y on = Inr s) \<and>
         (on \<noteq> (GRID_flags s x y AND F_LIGHT \<noteq> 0) \<longrightarrow>
            (\<exists>s'. set_light s x y on = Inr s' \<and>
               flags s' = (flags s)[y * w s + x := GRID_flags s x y XOR F_LIGHT] \<and>
               nlights s' = nlights s + (if on then 1 else - 1) \<and>
               (\<forall>a b. a < w s \<and> b < h s \<longrightarrow>
                  GRID_lights s' a b =
                    GRID_lights s a b + (if sees s (x, y) (a, b) then (if on then 1 else - 1) else 0)) \<and>
               w s' = w s \<and> h s' = h s \<and> completed s' = completed s \<and>
               used_solve s' = used_solve s \<and> length (lights s') = length (lights s)))"
proof (intro conjI impI)
  assume "on = (GRID_flags s x y AND F_LIGHT \<noteq> 0)"
  with assms(4) show "set_light s x y on = Inr s" by (simp add: set_light_def)
next
  assume ne: "on \<noteq> (GRID_flags s x y AND F_LIGHT \<noteq> 0)"
  let ?fl = "GRID_flags s x y"
  let ?d = "if on then 1 else - 1 :: int"
  let ?st = "(GRID_flags_set s x y (?fl XOR F_LIGHT))\<lparr>nlights := nlights s + ?d\<rparr>"
  let ?s' = "add_lights ?d ?st (FOREACHLIT (list_lights ?st x y True))"
  have v: "(?fl XOR F_LIGHT) AND F_BLACK = 0"
    using assms(4) by (metis and_F_BLACK_simps(1,2) light_flip)
  have run: "set_light s x y on = Inr ?s'"
  proof (cases on)
    case True
    with ne have "?fl AND F_LIGHT = 0" by simp
    with True assms(4) show ?thesis
      by (simp add: set_light_def Let_def light_flip GRID_flags_set_def)
  next
    case False
    with ne have "?fl AND F_LIGHT \<noteq> 0" by simp
    with False assms(4) show ?thesis
      by (simp add: set_light_def Let_def light_flip GRID_flags_set_def)
  qed
  note C = set_light_change [OF assms v, where n = "nlights s + ?d" and d = ?d]
  show "\<exists>s'. set_light s x y on = Inr s' \<and>
               flags s' = (flags s)[y * w s + x := GRID_flags s x y XOR F_LIGHT] \<and>
               nlights s' = nlights s + (if on then 1 else - 1) \<and>
               (\<forall>a b. a < w s \<and> b < h s \<longrightarrow>
                  GRID_lights s' a b =
                    GRID_lights s a b + (if sees s (x, y) (a, b) then (if on then 1 else - 1) else 0)) \<and>
               w s' = w s \<and> h s' = h s \<and> completed s' = completed s \<and>
               used_solve s' = used_solve s \<and> length (lights s') = length (lights s)"
    apply (rule exI [of _ ?s'])
    apply (intro conjI allI impI)
    apply (rule run)
    apply (rule C(1))
    apply (rule C(2))
    using C(8) apply blast
    apply (rule C(3))
    apply (rule C(4))
    apply (rule C(5))
    apply (rule C(6))
    apply (rule C(7))
    done
qed

text \<open>
  Claim C4. On a white cell, \<open>set_light\<close> changes nothing when \<open>on\<close> is the cell's
  \<open>F_LIGHT\<close> flag already. Otherwise it flips that flag, and nothing else in the flags
  plane; changes \<open>nlights\<close> by 1 up (turning on) or down (turning off); and changes the
  count of every cell that the cell sees, itself included, by the same amount, and of no
  other cell.
\<close>

theorem set_light_spec:
  assumes "wf_state s" "x < w s" "y < h s" "GRID_flags s x y AND F_BLACK = 0"
  shows "(on = (GRID_flags s x y AND F_LIGHT \<noteq> 0) \<longrightarrow> set_light s x y on = Inr s) \<and>
         (on \<noteq> (GRID_flags s x y AND F_LIGHT \<noteq> 0) \<longrightarrow>
            (\<exists>s'. set_light s x y on = Inr s' \<and>
               flags s' = (flags s)[y * w s + x := GRID_flags s x y XOR F_LIGHT] \<and>
               nlights s' = nlights s + (if on then 1 else - 1) \<and>
               (\<forall>a b. a < w s \<and> b < h s \<longrightarrow>
                  GRID_lights s' a b =
                    GRID_lights s a b + (if sees s (x, y) (a, b) then (if on then 1 else - 1) else 0)) \<and>
               w s' = w s \<and> h s' = h s \<and> completed s' = completed s \<and>
               used_solve s' = used_solve s \<and> length (lights s') = length (lights s)))"
  using assms by (rule set_light_effect)

theorem set_light_spec_witness:
  "set_light \<lparr>w = 3, h = 1, nlights = 0, lights = [0, 0, 0], flags = [0, 1, 0], completed = 0,
      used_solve = 0\<rparr> 0 0 False
     = Inr \<lparr>w = 3, h = 1, nlights = 0, lights = [0, 0, 0], flags = [0, 1, 0], completed = 0,
      used_solve = 0\<rparr>
   \<and> (\<exists>s'. set_light \<lparr>w = 3, h = 1, nlights = 0, lights = [0, 0, 0], flags = [0, 1, 0],
              completed = 0, used_solve = 0\<rparr> 0 0 True = Inr s'
          \<and> flags s' = [16, 1, 0] \<and> nlights s' = 1
          \<and> GRID_lights s' 0 0 = 1 \<and> GRID_lights s' 2 0 = 0)"
proof -
  let ?s = "\<lparr>w = 3, h = 1, nlights = 0, lights = [0, 0, 0], flags = [0, 1, 0], completed = 0,
      used_solve = 0\<rparr>"
  have wf: "wf_state ?s" by (simp add: wf_state_def)
  have x: "0 < w ?s" and y: "0 < h ?s" and x2: "2 < w ?s" by simp_all
  have white: "GRID_flags ?s 0 0 AND F_BLACK = 0" by (simp add: GRID_flags_def)
  have nl: "\<not> (GRID_flags ?s 0 0 AND F_LIGHT \<noteq> 0)" by (simp add: GRID_flags_def)
  have s00: "sees ?s (0, 0) (0, 0)" by code_simp
  have s20: "\<not> sees ?s (0, 0) (2, 0)" by code_simp
  have fl: "(flags ?s)[0 * w ?s + 0 := GRID_flags ?s 0 0 XOR F_LIGHT] = [16, 1, 0]"
    by (simp add: GRID_flags_def F_LIGHT_def)
  have li: "GRID_lights ?s 0 0 = 0" "GRID_lights ?s 2 0 = 0" by (simp_all add: GRID_lights_def)
  from set_light_spec [OF wf x y white, of False] nl
  have off: "set_light ?s 0 0 False = Inr ?s" by blast
  from set_light_spec [OF wf x y white, of True] nl
  obtain s' where s': "set_light ?s 0 0 True = Inr s'"
    "flags s' = (flags ?s)[0 * w ?s + 0 := GRID_flags ?s 0 0 XOR F_LIGHT]"
    "nlights s' = nlights ?s + 1"
    "\<forall>a b. a < w ?s \<and> b < h ?s \<longrightarrow>
        GRID_lights s' a b = GRID_lights ?s a b + (if sees ?s (0, 0) (a, b) then 1 else 0)"
    by auto
  from s'(4) x y x2 s00 s20 li have "GRID_lights s' 0 0 = 1" "GRID_lights s' 2 0 = 0"
    by auto
  with off s'(1) s'(2) s'(3) fl show ?thesis by auto
qed

subsection \<open>The square to guess\<close>

lemma could_place_light_iff:
  "could_place_light fl li \<noteq> 0 \<longleftrightarrow>
     fl AND F_BLACK = 0 \<and> fl AND F_IMPOSSIBLE = 0 \<and> li \<le> 0"
  by (auto simp: could_place_light_def and_F_BLACK_or_IMPOSSIBLE)

lemma best_step_mono:
  "best_step s c (bn, bx, by) = (bn', bx', by') \<Longrightarrow> bn \<le> bn'"
  by (cases c) (auto simp: best_step_def Let_def split: if_splits)

lemma best_step_coords:
  "best_step s c (bn, bx, by) = (bn', bx', by') \<Longrightarrow> (0 < bn \<longrightarrow> 0 \<le> bx \<and> 0 \<le> by) \<Longrightarrow> 0 \<le> bn \<Longrightarrow>
     0 < bn' \<longrightarrow> 0 \<le> bx' \<and> 0 \<le> by'"
  by (cases c) (auto simp: best_step_def Let_def split: if_splits)

lemma origin_in_FOREACHLIT:
  "x < w s \<Longrightarrow> y < h s \<Longrightarrow> (x, y) \<in> set (FOREACHLIT (list_lights s x y True))"
  using list_lights_bounds [of x s y True] by (auto simp: set_FOREACHLIT)

lemma best_step_hit:
  assumes "x < w s" "y < h s" "could_place_light (GRID_flags s x y) (GRID_lights s x y) \<noteq> 0"
    "GRID_lights s x y = 0" "best_step s (x, y) (bn, bx, by) = (bn', bx', by')"
  shows "0 < bn'"
proof -
  let ?cs = "FOREACHLIT (list_lights s x y True)"
  define n where "n = int (length (filter (\<lambda>(lx, ly). GRID_lights s lx ly = 0) ?cs))"
  have "filter (\<lambda>(lx, ly). GRID_lights s lx ly = 0) ?cs \<noteq> []"
    using origin_in_FOREACHLIT [OF assms(1,2)] assms(4) by (force simp: filter_empty_conv)
  then have n: "0 < n" by (simp add: n_def)
  from assms(3,5) have "bn' = (if n > bn then n else bn)"
    by (auto simp: best_step_def Let_def n_def split: if_splits)
  with n show ?thesis by (simp split: if_splits)
qed

lemma fold_best_step_inv:
  assumes "fold (best_step s) cs (bn, bx, by) = (bn', bx', by')"
    "0 \<le> bn" "0 < bn \<longrightarrow> 0 \<le> bx \<and> 0 \<le> by"
  shows "bn \<le> bn' \<and> (0 < bn' \<longrightarrow> 0 \<le> bx' \<and> 0 \<le> by')"
  using assms
proof (induction cs arbitrary: bn bx "by")
  case Nil
  then show ?case by simp
next
  case (Cons c cs)
  obtain n1 x1 y1 where st: "best_step s c (bn, bx, by) = (n1, x1, y1)"
    by (cases "best_step s c (bn, bx, by)") auto
  from best_step_mono [OF st] Cons.prems(2) have n1: "bn \<le> n1" "0 \<le> n1" by auto
  from best_step_coords [OF st Cons.prems(3) Cons.prems(2)]
  have c1: "0 < n1 \<longrightarrow> 0 \<le> x1 \<and> 0 \<le> y1" .
  from Cons.prems(1) st have "fold (best_step s) cs (n1, x1, y1) = (bn', bx', by')" by simp
  from Cons.IH [OF this n1(2) c1] n1(1) show ?case by auto
qed

lemma choose_best_positive:
  assumes nonneg: "lights_nonneg s"
    and some: "(x, y) \<in> set (cells_xy (w s) (h s))"
      "could_place_light (GRID_flags s x y) (GRID_lights s x y) \<noteq> 0"
  shows "\<exists>bestn bestx besty.
           choose_best s = (bestn, bestx, besty) \<and> 0 < bestn \<and> 0 \<le> bestx \<and> 0 \<le> besty"
proof -
  from some(1) have xy: "x < w s" "y < h s" by (simp_all add: set_cells_xy)
  from some(2) have "GRID_lights s x y \<le> 0" by (simp add: could_place_light_iff)
  with nonneg some(1) have unlit: "GRID_lights s x y = 0"
    by (force simp: lights_nonneg_def list_all_iff)
  from some(1) obtain pre post where cells: "cells_xy (w s) (h s) = pre @ (x, y) # post"
    by (auto simp: in_set_conv_decomp)
  obtain n1 x1 y1 where 1: "fold (best_step s) pre (0, - 1, - 1) = (n1, x1, y1)"
    by (cases "fold (best_step s) pre (0, - 1, - 1)") auto
  from fold_best_step_inv [OF 1] have i1: "0 \<le> n1" "0 < n1 \<longrightarrow> 0 \<le> x1 \<and> 0 \<le> y1" by auto
  obtain n2 x2 y2 where 2: "best_step s (x, y) (n1, x1, y1) = (n2, x2, y2)"
    by (cases "best_step s (x, y) (n1, x1, y1)") auto
  from best_step_hit [OF xy some(2) unlit 2] have n2: "0 < n2" .
  from best_step_coords [OF 2 i1(2) i1(1)] have c2: "0 < n2 \<longrightarrow> 0 \<le> x2 \<and> 0 \<le> y2" .
  obtain n3 x3 y3 where 3: "fold (best_step s) post (n2, x2, y2) = (n3, x3, y3)"
    by (cases "fold (best_step s) post (n2, x2, y2)") auto
  from fold_best_step_inv [OF 3 _ c2] n2 have "n2 \<le> n3" "0 < n3 \<longrightarrow> 0 \<le> x3 \<and> 0 \<le> y3" by auto
  with n2 have "0 < n3 \<and> 0 \<le> x3 \<and> 0 \<le> y3" by auto
  moreover have "choose_best s = (n3, x3, y3)"
    by (simp add: choose_best_def cells 1 2 3)
  ultimately show ?thesis by blast
qed

text \<open>
  Claim C9. Where lit counts are not negative, as they are wherever they count lights, a
  cell at which \<open>could_place_light\<close> holds is unlit and \<open>FOREACHLIT\<close> counts it among the
  unlit cells it would light. So when some cell of the grid could take a light, the
  choice ends with \<open>bestn > 0\<close> and \<open>bestx, besty \<ge> 0\<close>: the two assertions hold.
\<close>

theorem choose_best_asserts:
  assumes nonneg: "lights_nonneg s"
    and some: "(x, y) \<in> set (cells_xy (w s) (h s))"
      "could_place_light (GRID_flags s x y) (GRID_lights s x y) \<noteq> 0"
  shows "\<exists>bestn bestx besty.
           choose_best s = (bestn, bestx, besty) \<and> 0 < bestn \<and> 0 \<le> bestx \<and> 0 \<le> besty"
  using assms by (rule choose_best_positive)

subsection \<open>Reading the numbers that \<open>sprintf\<close> writes\<close>

lemma scan_int_show_nat:
  assumes r: "stops r" and n: "n < 2147483648"
  shows "scan_int (show_nat n @ r) = Some (int n, r)"
proof -
  obtain c cs where sn: "show_nat n = c # cs"
    using show_nat_not_Nil [of n] by (cases "show_nat n") auto
  have c: "isdigit c" using hd_show_nat_digit [of n] sn by simp
  have dw: "dropWhile isspace (show_nat n @ r) = show_nat n @ r"
    using sn c isdigit_not_space by simp
  have v: "digits_val 0 (show_nat n @ r) = int n"
    using r by (simp add: digits_val_append show_nat_digits digits_val_stops digits_val_show_nat)
  have d: "dropWhile isdigit (show_nat n @ r) = r"
    using r by (rule dropWhile_isdigit_show_nat)
  have "to_long (int n) = int n" using n by (intro to_long_id) simp_all
  moreover have "c_int (int n) = int n" using n by (intro c_int_id) simp_all
  ultimately have k: "c_int (to_long (int n)) = int n" by simp
  show ?thesis
    unfolding scan_int_def dw Let_def using sn c isdigit_not_sign [of c] v d k by simp
qed

lemma stops_comma [simp]: "stops (CHR '','' # t)"
  by (simp add: stops_def isdigit_def)

lemma sscanf_show_nat:
  "stops r \<Longrightarrow> x < 2147483648 \<Longrightarrow> y < 2147483648 \<Longrightarrow>
     sscanf_d_d_n (show_nat x @ CHR '','' # show_nat y @ r) = Some (int x, int y, r)"
  by (simp add: sscanf_d_d_n_def scan_int_show_nat)

subsection \<open>One command, text and state apart\<close>

lemma cell_ok_nat:
  "cell_ok s x y \<longleftrightarrow> (\<exists>a b. x = int a \<and> y = int b \<and> a < w s \<and> b < h s \<and>
      GRID_flags s a b AND F_BLACK = 0)"
proof
  assume c: "cell_ok s x y"
  then have "x = int (nat x)" "y = int (nat y)" "nat x < w s" "nat y < h s"
    "GRID_flags s (nat x) (nat y) AND F_BLACK = 0"
    by (auto simp: cell_ok_def)
  then show "\<exists>a b. x = int a \<and> y = int b \<and> a < w s \<and> b < h s \<and> GRID_flags s a b AND F_BLACK = 0"
    by blast
next
  assume "\<exists>a b. x = int a \<and> y = int b \<and> a < w s \<and> b < h s \<and> GRID_flags s a b AND F_BLACK = 0"
  then show "cell_ok s x y" by (auto simp: cell_ok_def)
qed



lemma set_light_Inr: "GRID_flags s x y AND F_BLACK = 0 \<Longrightarrow> \<exists>s'. set_light s x y on = Inr s'"
  by (simp add: set_light_def Let_def)




section \<open>The text of a move\<close>

subsection \<open>Numbers\<close>




lemma stops_semi [simp]: "stops (CHR '';'' # t)"
  by (simp add: stops_def isdigit_def)

lemma stops_Nil [simp]: "stops []"
  by (simp add: stops_def)






subsection \<open>Commands\<close>




subsection \<open>Moves\<close>

lemma split_semi_not_Nil [simp]: "split_semi m \<noteq> []"
  by (induction m) auto


lemma move_pieces_Nil [simp]: "move_pieces [] = []"
  by (simp add: move_pieces_def)





subsection \<open>The loop against the grammar\<close>


subsection \<open>The store\<close>

lemma deref_append: "deref (st @ [v]) q = (if q = length st then v else deref st q)"
  by (auto simp: deref_def nth_append)

lemma deref_Some: "deref st p = Some s \<longleftrightarrow> p < length st \<and> st ! p = Some s"
  by (simp add: deref_def)

lemma deref_update_same: "p < length st \<Longrightarrow> deref (st[p := v]) p = v"
  by (simp add: deref_def)

lemma execute_move_loop_at_eq:
  "deref st ret = Some r \<Longrightarrow>
     (case execute_move_loop r m of
        Inl e \<Rightarrow> execute_move_loop_at st ret m = Inl e
      | Inr None \<Rightarrow> (\<exists>r'. execute_move_loop_at st ret m = Inr (st[ret := Some r'], False))
      | Inr (Some r') \<Rightarrow> execute_move_loop_at st ret m = Inr (st[ret := Some r'], True))"
proof (induction r m arbitrary: st rule: execute_move_loop.induct)
  case (1 r)
  then have "st[ret := Some r] = st" by (simp add: deref_Some list_update_same_conv)
  then show ?case by simp
next
  case (2 r c move)
  from "2.prems" have lt: "ret < length st" by (simp add: deref_Some)
  show ?case
  proof (cases "execute_cmd r c move")
    case (Inl e)
    with "2.prems" show ?thesis by (simp add: execute_cmd_at_def)
  next
    case (Inr res)
    show ?thesis
    proof (cases res)
      case None
      from "2.prems" have "st[ret := Some r] = st" by (simp add: deref_Some list_update_same_conv)
      then have "\<exists>r'. (st, False) = (st[ret := Some r'], False)" by metis
      with Inr None "2.prems" show ?thesis by (simp add: execute_cmd_at_def)
    next
      case (Some pr)
      obtain r1 rest where pr: "pr = (r1, rest)" by (cases pr)
      note cmd = Inr [unfolded Some pr]
      let ?st1 = "st[ret := Some r1]"
      have at: "execute_cmd_at st ret c move = Inr (?st1, Some rest)"
        using "2.prems" cmd by (simp add: execute_cmd_at_def store_set_def)
      have d1: "deref ?st1 ret = Some r1" using lt by (simp add: deref_update_same)
      have ow: "?st1[ret := Some r'] = st[ret := Some r']" for r' by simp
      show ?thesis
      proof (cases "rest \<noteq> [] \<and> hd rest = CHR '';''")
        case True
        have 1: "execute_move_loop_at st ret (c # move) = execute_move_loop_at ?st1 ret (tl rest)"
          using True by (simp add: at)
        have 2: "execute_move_loop r (c # move) = execute_move_loop r1 (tl rest)"
          using True by (simp add: cmd)
        from "2.IH"(1) [OF cmd refl refl True d1] show ?thesis
          unfolding 1 2 by (auto simp: ow split: sum.splits option.splits)
      next
        case False
        show ?thesis
        proof (cases "rest = []")
          case e: True
          have 1: "execute_move_loop_at st ret (c # move) = execute_move_loop_at ?st1 ret rest"
            using e by (simp add: at)
          have 2: "execute_move_loop r (c # move) = execute_move_loop r1 rest"
            using e by (simp add: cmd)
          from "2.IH"(2) [OF cmd refl refl False _ d1] e show ?thesis
            unfolding 1 2 by (auto simp: ow split: sum.splits option.splits)
        next
          case ne: False
          have "\<exists>r'. (?st1, False) = (st[ret := Some r'], False)" by blast
          with False ne show ?thesis by (simp add: cmd at)
        qed
      qed
    qed
  qed
qed

text \<open>
  \<open>execute_move\<close> with its pointers does what the function on states says, at a new
  address, and leaves every object of the store as it was.
\<close>

lemma execute_move_at_eq:
  assumes "deref st p = Some s"
  shows "execute_move_at st p m =
     (case execute_move s m of
        Inl e \<Rightarrow> Inl e
      | Inr None \<Rightarrow> Inr (st @ [None], None)
      | Inr (Some s') \<Rightarrow> Inr (st @ [Some s'], Some (length st)))"
proof (cases "m = []")
  case True
  with assms show ?thesis
    by (simp add: execute_move_at_def execute_move_def snew_def sfree_def)
next
  case False
  let ?st1 = "st @ [Some (dup_game s)]"
  have d1: "deref ?st1 (length st) = Some (dup_game s)" by (simp add: deref_append)
  note L = execute_move_loop_at_eq [OF d1, of m]
  have up: "?st1[length st := v] = st @ [v]" for v by simp
  show ?thesis
  proof (cases "execute_move_loop (dup_game s) m")
    case (Inl e)
    with L False assms show ?thesis
      by (simp add: execute_move_at_def execute_move_def snew_def)
  next
    case (Inr res)
    show ?thesis
    proof (cases res)
      case None
      with L Inr obtain r' where
        "execute_move_loop_at ?st1 (length st) m = Inr (?st1[length st := Some r'], False)"
        by auto
      with Inr None False assms show ?thesis
        by (simp add: execute_move_at_def execute_move_def snew_def sfree_def up)
    next
      case (Some r')
      with L Inr have run: "execute_move_loop_at ?st1 (length st) m = Inr (st @ [Some r'], True)"
        by (simp add: up)
      obtain ok where gc: "grid_correct r' = Inr ok" using grid_correct_Inr [of r'] by blast
      from run gc Inr Some False assms show ?thesis
        by (simp add: execute_move_at_def execute_move_def snew_def store_set_def deref_append)
    qed
  qed
qed




subsection \<open>A light on a cell marked impossible\<close>

lemma light_on_impossible_bits:
  "v AND F_LIGHT = 0 \<Longrightarrow> ((v AND NOT F_IMPOSSIBLE) XOR F_LIGHT) AND F_LIGHT = F_LIGHT"
  "((v AND NOT F_IMPOSSIBLE) XOR F_LIGHT) AND F_IMPOSSIBLE = 0"
  by (rule bit_word_eqI; auto simp: bit_simps bit_F and_F_LIGHT_bit)+

text \<open>
  Claim C2 as the specification states it fails: on the 1x1 white grid whose cell is marked
  impossible, the move \<open>L0,0\<close> returns a state, with the mark gone and the light on.
\<close>

theorem execute_move_L_on_impossible_accepted:
  "GRID_flags \<lparr>w = 1, h = 1, nlights = 0, lights = [0], flags = [8], completed = 0,
        used_solve = 0\<rparr> 0 0 AND F_BLACK = 0
   \<and> GRID_flags \<lparr>w = 1, h = 1, nlights = 0, lights = [0], flags = [8], completed = 0,
        used_solve = 0\<rparr> 0 0 AND F_IMPOSSIBLE \<noteq> 0
   \<and> GRID_flags \<lparr>w = 1, h = 1, nlights = 0, lights = [0], flags = [8], completed = 0,
        used_solve = 0\<rparr> 0 0 AND F_LIGHT = 0
   \<and> execute_move \<lparr>w = 1, h = 1, nlights = 0, lights = [0], flags = [8], completed = 0,
        used_solve = 0\<rparr> ''L0,0''
     = Inr (Some \<lparr>w = 1, h = 1, nlights = 1, lights = [1], flags = [16], completed = 1,
        used_solve = 0\<rparr>)"
  by code_simp

lemma grid_addsup_loop_completed:
  "grid_addsup_loop (s\<lparr>completed := c\<rparr>) cells = grid_addsup_loop s cells"
  by (induction cells)
     (auto simp: number_correct_def get_surrounds_def GRID_flags_def GRID_lights_def
           split: sum.splits)

lemma grid_correct_completed: "grid_correct (s\<lparr>completed := c\<rparr>) = grid_correct s"
  by (simp add: grid_correct_def grid_lit_def grid_overlap_def grid_addsup_def
      grid_addsup_loop_completed GRID_flags_def GRID_lights_def)

text \<open>
  Claim C2, as amended. Let \<open>s\<close> be a well-formed state at the address \<open>p\<close>, with sides
  that fit an \<open>int\<close>, and \<open>(x, y)\<close> a white cell of its grid that is marked impossible and
  holds no light. Then \<open>execute_move\<close> on \<open>Lx,y\<close> returns a state at a new address, which
  is \<open>s\<close> with a light placed at \<open>(x, y)\<close> as \<open>set_light\<close> places it: in the flags, the
  cell has lost the mark and holds the light, and no other cell has changed; \<open>nlights\<close> is
  one more; the lit count of every cell that \<open>(x, y)\<close> sees, itself included, is one more,
  and no other has changed; \<open>completed\<close> is set if the new grid is correct, and is as in
  \<open>s\<close> otherwise. The state at \<open>p\<close> and every other object of the store are as before.
\<close>

theorem execute_move_L_on_impossible:
  assumes "deref st p = Some s" "wf_state s" "x < w s" "y < h s"
    and "w s < 2147483648" "h s < 2147483648"
    and "GRID_flags s x y AND F_BLACK = 0" "GRID_flags s x y AND F_IMPOSSIBLE \<noteq> 0"
    and "GRID_flags s x y AND F_LIGHT = 0"
  shows "\<exists>st' s'. execute_move_at st p (CHR ''L'' # show_int (int x) @ CHR '','' # show_int (int y))
                 = Inr (st', Some (length st))
            \<and> deref st' (length st) = Some s'
            \<and> deref st' p = Some s
            \<and> (\<forall>q. q \<noteq> length st \<longrightarrow> deref st' q = deref st q)
            \<and> wf_state s' \<and> w s' = w s \<and> h s' = h s \<and> used_solve s' = used_solve s
            \<and> nlights s' = nlights s + 1
            \<and> flags s' = (flags s)[y * w s + x := (GRID_flags s x y AND NOT F_IMPOSSIBLE) OR F_LIGHT]
            \<and> (\<forall>a b. a < w s \<and> b < h s \<longrightarrow>
                  GRID_lights s' a b = GRID_lights s a b + (if sees s (x, y) (a, b) then 1 else 0))
            \<and> completed s' = (if grid_correct s' = Inr True then 1 else completed s)"
proof -
  let ?fl = "GRID_flags s x y"
  let ?move = "show_nat x @ CHR '','' # show_nat y"
  let ?st = "GRID_flags_set s x y (?fl AND NOT F_IMPOSSIBLE)"
  have m: "CHR ''L'' # show_int (int x) @ CHR '','' # show_int (int y) = CHR ''L'' # ?move"
    by (simp add: show_int_def)
  have xs: "x < 2147483648" "y < 2147483648" using assms(3-6) by simp_all
  have sc: "sscanf_d_d_n ?move = Some (int x, int y, [])"
    using sscanf_show_nat [of "[]" x y] xs by simp
  have wst: "wf_state ?st" "x < w ?st" "y < h ?st" using assms(2-4) by simp_all
  have fst: "GRID_flags ?st x y = ?fl AND NOT F_IMPOSSIBLE"
    using assms(2-4) by (rule GRID_flags_set_same)
  have white: "GRID_flags ?st x y AND F_BLACK = 0"
    using assms(7) by (simp add: fst and_F_BLACK_simps)
  have dark: "(?fl AND NOT F_IMPOSSIBLE) AND F_LIGHT = 0"
    using assms(9) by (simp add: and_F_LIGHT_simps)
  then have nolight: "True \<noteq> (GRID_flags ?st x y AND F_LIGHT \<noteq> 0)" by (simp add: fst)
  from set_light_effect [OF wst white, of True] nolight
  obtain r1 where r1: "set_light ?st x y True = Inr r1"
    and fr1: "flags r1 = (flags ?st)[y * w ?st + x := GRID_flags ?st x y XOR F_LIGHT]"
    and nr1: "nlights r1 = nlights ?st + 1"
    and lr1: "\<forall>a b. a < w ?st \<and> b < h ?st \<longrightarrow>
                GRID_lights r1 a b = GRID_lights ?st a b + (if sees ?st (x, y) (a, b) then 1 else 0)"
    and dims: "w r1 = w ?st" "h r1 = h ?st" "completed r1 = completed ?st"
      "used_solve r1 = used_solve ?st"
    by auto
  have cmd: "execute_cmd s (CHR ''L'') ?move = Inr (Some (r1, []))"
    using sc assms(3,4,7,9) r1 by (simp add: execute_cmd_def Let_def)
  have loop: "execute_move_loop s (CHR ''L'' # ?move) = Inr (Some r1)"
    by (simp add: cmd)
  obtain ok where gc: "grid_correct r1 = Inr ok" using grid_correct_Inr [of r1] by blast
  let ?s' = "if ok then r1\<lparr>completed := 1\<rparr> else r1"
  have run: "execute_move s (CHR ''L'' # ?move) = Inr (Some ?s')"
    using loop gc assms(2) by (simp add: execute_move_def dup_game_wf)
  from execute_move_at_eq [OF assms(1), of "CHR ''L'' # ?move"] run
  have at: "execute_move_at st p (CHR ''L'' # ?move) = Inr (st @ [Some ?s'], Some (length st))"
    by simp
  from assms(1) have p: "p < length st" by (simp add: deref_Some)
  have d1: "deref (st @ [Some ?s']) (length st) = Some ?s'" by (simp add: deref_append)
  have d2: "deref (st @ [Some ?s']) p = Some s" using p assms(1) by (simp add: deref_append)
  have d3: "\<forall>q. q \<noteq> length st \<longrightarrow> deref (st @ [Some ?s']) q = deref st q"
    by (simp add: deref_append)
  have f1: "w ?s' = w s" "h ?s' = h s" "used_solve ?s' = used_solve s"
    using dims by simp_all
  have f0: "wf_state ?s'" using set_light_wf [OF r1] wst(1) by simp
  have f2: "nlights ?s' = nlights s + 1" using nr1 by simp
  have bits: "(?fl AND NOT F_IMPOSSIBLE) XOR F_LIGHT = (?fl AND NOT F_IMPOSSIBLE) OR F_LIGHT"
    using light_flip(1) [OF dark] by simp
  have f3: "flags ?s' = (flags s)[y * w s + x := (?fl AND NOT F_IMPOSSIBLE) OR F_LIGHT]"
    using fr1 by (simp add: fst bits) (simp add: GRID_flags_set_def)
  have black: "GRID_flags ?st i j AND F_BLACK = GRID_flags s i j AND F_BLACK" if "i < w s" for i j
  proof (cases "(i, j) = (x, y)")
    case True
    with assms(2-4) show ?thesis by (simp add: GRID_flags_set_same and_F_BLACK_simps)
  next
    case False
    with assms(3) that show ?thesis by (simp add: GRID_flags_set_other)
  qed
  have f4: "GRID_lights ?s' a b = GRID_lights s a b + (if sees s (x, y) (a, b) then 1 else 0)"
    if "a < w s" "b < h s" for a b
  proof -
    have "sees ?st (x, y) (a, b) = sees s (x, y) (a, b)"
      using black assms(3) that(1) by (rule sees_cong)
    moreover have "GRID_lights ?s' a b = GRID_lights r1 a b" by (simp add: GRID_lights_def)
    ultimately show ?thesis using lr1 that by simp
  qed
  have gc': "grid_correct ?s' = Inr ok" using gc by (simp add: grid_correct_completed)
  have f5: "completed ?s' = (if grid_correct ?s' = Inr True then 1 else completed s)"
    unfolding gc' using dims by simp
  show ?thesis
    unfolding m
    apply (rule exI [of _ "st @ [Some ?s']"])
    apply (rule exI [of _ ?s'])
    using at d1 d2 d3 f0 f1 f2 f3 f4 f5 by blast
qed

theorem execute_move_L_on_impossible_witness:
  "\<exists>st'. execute_move_at
            [None, Some \<lparr>w = 2, h = 1, nlights = 0, lights = [0, 0], flags = [0, 8], completed = 0,
                         used_solve = 0\<rparr>] 1 ''L1,0''
          = Inr (st', Some 2)
        \<and> deref st' 2 = Some \<lparr>w = 2, h = 1, nlights = 1, lights = [1, 1], flags = [0, 16],
                               completed = 1, used_solve = 0\<rparr>
        \<and> deref st' 1 = Some \<lparr>w = 2, h = 1, nlights = 0, lights = [0, 0], flags = [0, 8],
                               completed = 0, used_solve = 0\<rparr>
        \<and> deref st' 0 = None"
proof -
  let ?s = "\<lparr>w = 2, h = 1, nlights = 0, lights = [0, 0], flags = [0, 8], completed = 0,
        used_solve = 0\<rparr>"
  let ?t = "\<lparr>w = 2, h = 1, nlights = 1, lights = [1, 1], flags = [0, 16], completed = 1,
        used_solve = 0\<rparr>"
  have d: "deref [None, Some ?s] 1 = Some ?s" and d0: "deref [None, Some ?s] 0 = None"
    by (simp_all add: deref_def)
  have wf: "wf_state ?s" by (simp add: wf_state_def)
  have x: "1 < w ?s" and y: "0 < h ?s" by simp_all
  have sz: "w ?s < 2147483648" "h ?s < 2147483648" by simp_all
  have f: "GRID_flags ?s 1 0 AND F_BLACK = 0" "GRID_flags ?s 1 0 AND F_IMPOSSIBLE \<noteq> 0"
    "GRID_flags ?s 1 0 AND F_LIGHT = 0"
    by (simp_all add: GRID_flags_def F_defs)
  have m: "CHR ''L'' # show_int (int 1) @ CHR '','' # show_int (int 0) = ''L1,0''"
    by code_simp
  have len: "length [None, Some ?s] = 2" by simp
  have ev: "execute_move_at [None, Some ?s] 1 ''L1,0'' = Inr ([None, Some ?s, Some ?t], Some 2)"
    by code_simp
  from execute_move_L_on_impossible [OF d wf x y sz f, unfolded m len]
  obtain st' where a: "execute_move_at [None, Some ?s] 1 ''L1,0'' = Inr (st', Some 2)"
    by blast
  with ev have st': "st' = [None, Some ?s, Some ?t]" by simp
  have "deref [None, Some ?s, Some ?t] 2 = Some ?t" "deref [None, Some ?s, Some ?t] 1 = Some ?s"
    "deref [None, Some ?s, Some ?t] 0 = None"
    by (simp_all add: deref_def)
  with a show ?thesis unfolding st' by blast
qed

theorem choose_best_asserts_witness:
  "\<exists>bestn bestx besty.
     choose_best \<lparr>w = 2, h = 2, nlights = 0, lights = [0, 0, 0, 0], flags = [8, 0, 0, 0],
        completed = 0, used_solve = 0\<rparr> = (bestn, bestx, besty)
     \<and> 0 < bestn \<and> 0 \<le> bestx \<and> 0 \<le> besty"
proof -
  let ?s = "\<lparr>w = 2, h = 2, nlights = 0, lights = [0, 0, 0, 0], flags = [8, 0, 0, 0],
        completed = 0, used_solve = 0\<rparr>"
  have nonneg: "lights_nonneg ?s" by code_simp
  have cell: "(0, 1) \<in> set (cells_xy (w ?s) (h ?s))" by code_simp
  have can: "could_place_light (GRID_flags ?s 0 1) (GRID_lights ?s 0 1) \<noteq> 0" by code_simp
  from choose_best_asserts [OF nonneg cell can] show ?thesis .
qed

section \<open>The invariants of the game state\<close>

subsection \<open>What the invariants depend on\<close>

lemma lights_nonneg_iff:
  "lights_nonneg s \<longleftrightarrow> (\<forall>a b. a < w s \<and> b < h s \<longrightarrow> 0 \<le> GRID_lights s a b)"
  by (auto simp: lights_nonneg_def list_all_iff set_cells_xy)

lemma lights_nonneg_cong:
  "lights s' = lights s \<Longrightarrow> w s' = w s \<Longrightarrow> h s' = h s \<Longrightarrow> lights_nonneg s' = lights_nonneg s"
  by (simp add: lights_nonneg_iff GRID_lights_def)

lemma lit_inv_iff:
  "lit_inv s \<longleftrightarrow>
     (\<forall>a b. a < w s \<and> b < h s \<longrightarrow>
        (if GRID_flags s a b AND F_BLACK = 0 then GRID_lights s a b = lit_by s (a, b)
         else 0 \<le> GRID_lights s a b))"
  by (auto simp: lit_inv_def list_all_iff set_cells_xy)

lemma sees_white:
  "sees s p (a, b) \<Longrightarrow> GRID_flags s a b AND F_BLACK = 0"
  by (cases p) (auto simp: sees_alt)

lemma filter_length_change:
  assumes "distinct cs" "p \<in> set cs" "\<forall>q \<in> set cs. q \<noteq> p \<longrightarrow> P' q = P q"
  shows "int (length (filter P' cs)) =
           int (length (filter P cs)) + (if P' p then 1 else 0) - (if P p then 1 else 0)"
  using assms
proof (induction cs)
  case Nil
  then show ?case by simp
next
  case (Cons c cs)
  show ?case
  proof (cases "c = p")
    case True
    with Cons.prems have "p \<notin> set cs" by simp
    with Cons.prems(3) have "filter P' cs = filter P cs"
      by (intro filter_cong) auto
    with True show ?thesis by simp
  next
    case False
    with Cons.prems have pre: "distinct cs" "p \<in> set cs" "\<forall>q \<in> set cs. q \<noteq> p \<longrightarrow> P' q = P q"
      and c: "P' c = P c" by auto
    note IH = Cons.IH [OF pre]
    show ?thesis
    proof (cases "P c")
      case True
      with c have "P' c" by simp
      with True IH show ?thesis by simp
    next
      case False
      with c have "\<not> P' c" by simp
      with False IH show ?thesis by simp
    qed
  qed
qed

lemma filter_length_same:
  "\<forall>q \<in> set cs. P' q = P q \<Longrightarrow> length (filter P' cs) = length (filter P cs)"
  by (induction cs) auto

text \<open>
  A change of the flags that moves no wall and no light changes neither side of the
  invariant.
\<close>

lemma lit_by_cong:
  assumes "w s' = w s" "h s' = h s"
    and "\<And>a b. a < w s \<Longrightarrow> b < h s \<Longrightarrow> GRID_flags s' a b AND F_LIGHT = GRID_flags s a b AND F_LIGHT"
    and "\<And>a b. a < w s \<Longrightarrow> GRID_flags s' a b AND F_BLACK = GRID_flags s a b AND F_BLACK"
    and "fst q < w s"
  shows "lit_by s' q = lit_by s q"
proof -
  have "sees s' p q = sees s p q" if "p \<in> set (cells_xy (w s) (h s))" for p
  proof -
    obtain x y where p: "p = (x, y)" by (cases p)
    obtain a b where q: "q = (a, b)" by (cases q)
    from that p have "x < w s" by (simp add: set_cells_xy)
    with assms(4,5) q show ?thesis unfolding p q by (intro sees_cong) simp_all
  qed
  then show ?thesis
    unfolding lit_by_def assms(1,2)
    using assms(3) by (auto simp: set_cells_xy intro!: filter_length_same)
qed

lemma lit_inv_cong:
  assumes "w s' = w s" "h s' = h s" "lights s' = lights s"
    and "\<And>a b. a < w s \<Longrightarrow> b < h s \<Longrightarrow> GRID_flags s' a b AND F_LIGHT = GRID_flags s a b AND F_LIGHT"
    and "\<And>a b. a < w s \<Longrightarrow> GRID_flags s' a b AND F_BLACK = GRID_flags s a b AND F_BLACK"
  shows "lit_inv s' = lit_inv s"
proof -
  have "lit_by s' (a, b) = lit_by s (a, b)" if "a < w s" for a b
    using assms(1,2,4,5) that by (intro lit_by_cong) simp_all
  moreover have "GRID_lights s' a b = GRID_lights s a b" for a b
    using assms(1,3) by (simp add: GRID_lights_def)
  ultimately show ?thesis
    using assms(1,2,5) by (simp add: lit_inv_iff)
qed

lemma count_lights_cong:
  assumes "w s' = w s" "h s' = h s"
    and "\<And>a b. a < w s \<Longrightarrow> b < h s \<Longrightarrow> GRID_flags s' a b AND F_LIGHT = GRID_flags s a b AND F_LIGHT"
  shows "count_lights s' = count_lights s"
  unfolding count_lights_def assms(1,2)
  using assms(3) by (auto simp: set_cells_xy intro!: filter_length_same)

lemma lit_by_nonneg: "0 \<le> lit_by s q"
  by (simp add: lit_by_def)

lemma lit_inv_nonneg: "lit_inv s \<Longrightarrow> lights_nonneg s"
  unfolding lights_nonneg_iff
proof (intro allI impI)
  fix a b assume inv: "lit_inv s" and ab: "a < w s \<and> b < h s"
  show "0 \<le> GRID_lights s a b"
  proof (cases "GRID_flags s a b AND F_BLACK = 0")
    case True
    with inv ab have "GRID_lights s a b = lit_by s (a, b)" by (simp add: lit_inv_iff)
    with lit_by_nonneg [of s "(a, b)"] show ?thesis by simp
  next
    case False
    with inv ab show ?thesis by (simp add: lit_inv_iff)
  qed
qed

subsection \<open>\<open>set_light\<close> keeps the invariants\<close>

lemma flip_F_LIGHT_bits:
  "(v XOR F_LIGHT) AND F_BLACK = v AND F_BLACK"
  "((v XOR F_LIGHT) AND F_LIGHT \<noteq> 0) = (v AND F_LIGHT = 0)"
proof -
  show "(v XOR F_LIGHT) AND F_BLACK = v AND F_BLACK"
    by (rule bit_word_eqI) (auto simp: bit_simps bit_F)
  have "(v XOR F_LIGHT) AND F_LIGHT = 0 \<longleftrightarrow> \<not> bit (v XOR F_LIGHT) 4"
    by (rule and_F_LIGHT_bit)
  also have "\<dots> \<longleftrightarrow> bit v 4" by (simp add: bit_simps bit_F)
  also have "\<dots> \<longleftrightarrow> v AND F_LIGHT \<noteq> 0" by (simp add: and_F_LIGHT_bit)
  finally show "((v XOR F_LIGHT) AND F_LIGHT \<noteq> 0) = (v AND F_LIGHT = 0)" by blast
qed

lemma set_light_invariants:
  assumes wf: "wf_state s" and xy: "x < w s" "y < h s"
    and white: "GRID_flags s x y AND F_BLACK = 0"
    and run: "set_light s x y on = Inr s'"
  shows "lit_inv s \<Longrightarrow> lit_inv s'"
    and "nlights s = count_lights s \<Longrightarrow> nlights s' = count_lights s'"
proof -
  let ?fl = "GRID_flags s x y"
  let ?lit = "?fl AND F_LIGHT \<noteq> 0"
  note E = set_light_effect [OF wf xy white, of on]
  have "(lit_inv s \<longrightarrow> lit_inv s') \<and> (nlights s = count_lights s \<longrightarrow> nlights s' = count_lights s')"
  proof (cases "on = ?lit")
    case True
    with E run have "s' = s" by simp
    then show ?thesis by simp
  next
    case False
    let ?d = "if on then 1 else - 1 :: int"
    from False E run
    have fl: "flags s' = (flags s)[y * w s + x := ?fl XOR F_LIGHT]"
      and nl: "nlights s' = nlights s + ?d"
      and li: "\<And>a b. a < w s \<Longrightarrow> b < h s \<Longrightarrow>
          GRID_lights s' a b = GRID_lights s a b + (if sees s (x, y) (a, b) then ?d else 0)"
      and dims: "w s' = w s" "h s' = h s"
      by auto
    have here: "GRID_flags s' x y = ?fl XOR F_LIGHT"
      using wf xy by (simp add: GRID_flags_def fl dims wf_state_def cell_index_less)
    have there: "GRID_flags s' a b = GRID_flags s a b" if "a < w s" "(a, b) \<noteq> (x, y)" for a b
      using cell_index_neq [of x "w s" a b y] xy that by (simp add: GRID_flags_def fl dims)
    have black: "GRID_flags s' a b AND F_BLACK = GRID_flags s a b AND F_BLACK" if "a < w s" for a b
      using here there [OF that] by (cases "(a, b) = (x, y)") (auto simp: flip_F_LIGHT_bits)
    have sees': "sees s' p (a, b) = sees s p (a, b)"
      if "p \<in> set (cells_xy (w s) (h s))" "a < w s" for p a b
    proof -
      obtain i j where p: "p = (i, j)" by (cases p)
      with that have "i < w s" by (simp add: set_cells_xy)
      with black that show ?thesis unfolding p by (intro sees_cong) simp_all
    qed
    have now: "(GRID_flags s' x y AND F_LIGHT \<noteq> 0) = on"
      using False by (auto simp: here flip_F_LIGHT_bits)
    have before: "?lit = (\<not> on)" using False by auto
    have mem: "(x, y) \<in> set (cells_xy (w s) (h s))" using xy by (simp add: set_cells_xy)
    have cnt: "lit_by s' (a, b) = lit_by s (a, b) + (if sees s (x, y) (a, b) then ?d else 0)"
      if "a < w s" for a b
    proof -
      let ?P' = "\<lambda>p. GRID_flags s' (fst p) (snd p) AND F_LIGHT \<noteq> 0 \<and> sees s' p (a, b)"
      let ?P = "\<lambda>p. GRID_flags s (fst p) (snd p) AND F_LIGHT \<noteq> 0 \<and> sees s p (a, b)"
      have oth: "\<forall>q \<in> set (cells_xy (w s) (h s)). q \<noteq> (x, y) \<longrightarrow> ?P' q = ?P q"
      proof (intro ballI impI)
        fix q assume q: "q \<in> set (cells_xy (w s) (h s))" "q \<noteq> (x, y)"
        then have "fst q < w s" "(fst q, snd q) \<noteq> (x, y)" by (auto simp: set_cells_xy)
        from there [OF this] sees' [OF q(1) that] show "?P' q = ?P q" by simp
      qed
      from filter_length_change [OF distinct_cells_xy mem oth]
      have "lit_by s' (a, b) = lit_by s (a, b) + (if ?P' (x, y) then 1 else 0)
              - (if ?P (x, y) then 1 else 0)"
        by (simp add: lit_by_def dims)
      moreover have "?P' (x, y) = (on \<and> sees s (x, y) (a, b))"
        using now sees' [OF mem that] by simp
      moreover have "?P (x, y) = (\<not> on \<and> sees s (x, y) (a, b))"
        using before by simp
      ultimately show ?thesis by auto
    qed
    have 1: "lit_inv s'" if inv: "lit_inv s"
      unfolding lit_inv_iff
    proof (intro allI impI)
      fix a b assume "a < w s' \<and> b < h s'"
      then have ab: "a < w s" "b < h s" using dims by simp_all
      show "if GRID_flags s' a b AND F_BLACK = 0 then GRID_lights s' a b = lit_by s' (a, b)
            else 0 \<le> GRID_lights s' a b"
      proof (cases "GRID_flags s a b AND F_BLACK = 0")
        case True
        with inv ab have "GRID_lights s a b = lit_by s (a, b)" by (simp add: lit_inv_iff)
        with True black [OF ab(1)] li [OF ab] cnt [OF ab(1)] show ?thesis by simp
      next
        case False
        with sees_white [of s "(x, y)" a b] have "\<not> sees s (x, y) (a, b)" by blast
        moreover from False inv ab have "0 \<le> GRID_lights s a b" by (simp add: lit_inv_iff)
        ultimately show ?thesis using False black [OF ab(1)] li [OF ab] by simp
      qed
    qed
    have 2: "nlights s' = count_lights s'" if c: "nlights s = count_lights s"
    proof -
      let ?Q' = "\<lambda>p. case p of (a, b) \<Rightarrow> GRID_flags s' a b AND F_LIGHT \<noteq> 0"
      let ?Q = "\<lambda>p. case p of (a, b) \<Rightarrow> GRID_flags s a b AND F_LIGHT \<noteq> 0"
      have oth: "\<forall>q \<in> set (cells_xy (w s) (h s)). q \<noteq> (x, y) \<longrightarrow> ?Q' q = ?Q q"
        using there by (auto simp: set_cells_xy)
      from filter_length_change [OF distinct_cells_xy mem oth]
      have "count_lights s' = count_lights s + (if ?Q' (x, y) then 1 else 0)
              - (if ?Q (x, y) then 1 else 0)"
        by (simp add: count_lights_def dims)
      with now before have "count_lights s' = count_lights s + ?d" by auto
      with nl c show ?thesis by simp
    qed
    from 1 2 show ?thesis by blast
  qed
  then show "lit_inv s \<Longrightarrow> lit_inv s'"
    and "nlights s = count_lights s \<Longrightarrow> nlights s' = count_lights s'"
    by blast+
qed


subsection \<open>The invariant of the solver\<close>

lemma solver_inv_planes:
  assumes "solver_inv k s" "w t = w s" "h t = h s" "lights t = lights s" "flags t = flags s"
  shows "solver_inv k t"
proof -
  have "GRID_flags t a b = GRID_flags s a b" for a b
    using assms by (simp add: GRID_flags_def)
  then have "lit_inv t = lit_inv s"
    using assms by (intro lit_inv_cong) simp_all
  moreover have "lights_nonneg t = lights_nonneg s"
    using assms by (intro lights_nonneg_cong) simp_all
  moreover have "wf_state t = wf_state s" using assms by (simp add: wf_state_def)
  ultimately show ?thesis using assms(1) by (simp add: solver_inv_def)
qed

lemma solver_inv_flags:
  assumes "solver_inv k s" "x < w s" "y < h s"
    and "v AND F_LIGHT = GRID_flags s x y AND F_LIGHT"
    and "v AND F_BLACK = GRID_flags s x y AND F_BLACK"
  shows "solver_inv k (GRID_flags_set s x y v)"
proof -
  let ?t = "GRID_flags_set s x y v"
  from assms(1) have wf: "wf_state s" by (simp add: solver_inv_def)
  have fl: "GRID_flags ?t a b AND F_LIGHT = GRID_flags s a b AND F_LIGHT
          \<and> GRID_flags ?t a b AND F_BLACK = GRID_flags s a b AND F_BLACK" if "a < w s" for a b
  proof (cases "(a, b) = (x, y)")
    case True
    with wf assms(2-5) show ?thesis by (simp add: GRID_flags_set_same)
  next
    case False
    with assms(2) that show ?thesis by (simp add: GRID_flags_set_other)
  qed
  have "lit_inv ?t = lit_inv s" using fl by (intro lit_inv_cong) simp_all
  moreover have "lights_nonneg ?t = lights_nonneg s" by (intro lights_nonneg_cong) simp_all
  ultimately show ?thesis using assms(1) by (simp add: solver_inv_def)
qed

lemma solver_inv_set_light:
  assumes "solver_inv k s" "x < w s" "y < h s" "GRID_flags s x y AND F_BLACK = 0"
  shows "\<exists>s'. set_light s x y True = Inr s' \<and> solver_inv k s' \<and> w s' = w s \<and> h s' = h s"
proof -
  from assms(1) have wf: "wf_state s" and nn: "lights_nonneg s" and inv: "k \<longrightarrow> lit_inv s"
    by (simp_all add: solver_inv_def)
  from set_light_Inr [OF assms(4), of True] obtain s' where s': "set_light s x y True = Inr s'"
    by blast
  have dims: "w s' = w s" "h s' = h s" using set_light_fields [OF s'] by simp_all
  have wf': "wf_state s'" using set_light_wf [OF s'] wf by simp
  have inv': "k \<longrightarrow> lit_inv s'"
    using set_light_invariants(1) [OF wf assms(2,3,4) s'] inv by blast
  have nn': "lights_nonneg s'"
  proof (cases "GRID_flags s x y AND F_LIGHT \<noteq> 0")
    case True
    with set_light_effect [OF wf assms(2,3,4), of True] s' have "s' = s" by simp
    with nn show ?thesis by simp
  next
    case False
    with set_light_effect [OF wf assms(2,3,4), of True] s'
    have "\<forall>a b. a < w s \<and> b < h s \<longrightarrow>
        GRID_lights s' a b = GRID_lights s a b + (if sees s (x, y) (a, b) then 1 else 0)"
      by auto
    with nn dims show ?thesis by (auto simp: lights_nonneg_iff)
  qed
  from s' wf' nn' inv' dims show ?thesis by (simp add: solver_inv_def)
qed

section \<open>What the solver keeps\<close>

lemma and_NUMBERUSED_simps:
  "(v AND NOT F_NUMBERUSED) AND F_LIGHT = v AND F_LIGHT"
  "(v AND NOT F_NUMBERUSED) AND F_BLACK = v AND F_BLACK"
  by (rule bit_word_eqI; auto simp: bit_simps bit_F)+

subsection \<open>The rule for an unlit square\<close>

lemma fold_tsl_callback:
  "fold (tsl_callback s) cs (sx0, sy0, n0) = (sx, sy, n) \<Longrightarrow>
     n0 \<le> n \<and> (if n0 < n then (sx, sy) \<in> set cs else (sx, sy) = (sx0, sy0))"
proof (induction cs arbitrary: sx0 sy0 n0)
  case Nil
  then show ?case by simp
next
  case (Cons c cs)
  obtain lx ly where c: "c = (lx, ly)" by (cases c)
  obtain sx1 sy1 n1 where st: "tsl_callback s c (sx0, sy0, n0) = (sx1, sy1, n1)"
    by (cases "tsl_callback s c (sx0, sy0, n0)") auto
  then have 1: "(sx1, sy1, n1) = (sx0, sy0, n0) \<or> (sx1, sy1, n1) = (lx, ly, n0 + 1)"
    by (auto simp: tsl_callback_def c split: if_splits)
  from Cons.prems st have "fold (tsl_callback s) cs (sx1, sy1, n1) = (sx, sy, n)" by simp
  from Cons.IH [OF this]
  have IH: "n1 \<le> n" "if n1 < n then (sx, sy) \<in> set cs else (sx, sy) = (sx1, sy1)" by auto
  from 1 IH c show ?case by (auto split: if_splits)
qed


lemma try_solve_light_safe:
  assumes "solver_inv k s" "x < w s" "y < h s"
  shows "\<exists>st d. try_solve_light s x y (GRID_flags s x y) li = Inr (st, d) \<and>
           solver_inv k st \<and> w st = w s \<and> h st = h s \<and> (\<not> d \<longrightarrow> st = s)"
proof (cases "li > 0 \<or> GRID_flags s x y AND F_BLACK \<noteq> 0")
  case True
  then have "try_solve_light s x y (GRID_flags s x y) li = Inr (s, False)"
    by (auto simp: try_solve_light_def)
  with assms show ?thesis by auto
next
  case False
  then have white: "GRID_flags s x y AND F_BLACK = 0" by simp
  let ?cs = "FOREACHLIT (list_lights s x y True)"
  obtain sx sy n where f: "fold (tsl_callback s) ?cs (0, 0, 0) = (sx, sy, n)"
    by (cases "fold (tsl_callback s) ?cs (0, 0, 0)") auto
  show ?thesis
  proof (cases "n = 1")
    case n1: False
    with False f have "try_solve_light s x y (GRID_flags s x y) li = Inr (s, False)"
      by (simp add: try_solve_light_def)
    with assms show ?thesis by auto
  next
    case True
    with fold_tsl_callback [OF f] have mem: "(sx, sy) \<in> set ?cs" by simp
    from FOREACHLIT_in_range [OF assms(2,3) mem] have rng: "sx < w s" "sy < h s" by simp_all
    have w1: "GRID_flags s sx sy AND F_BLACK = 0"
    proof (cases "(sx, sy) = (x, y)")
      case True
      with white show ?thesis by simp
    next
      case False
      from FOREACHLIT_white [OF mem False assms(2,3)] show ?thesis .
    qed
    from solver_inv_set_light [OF assms(1) rng w1] obtain st
      where st: "set_light s sx sy True = Inr st" "solver_inv k st"
        "w st = w s" "h st = h s" by blast
    from False f True st(1)
    have "try_solve_light s x y (GRID_flags s x y) li = Inr (st, True)"
      by (simp add: try_solve_light_def)
    with st show ?thesis by auto
  qed
qed

subsection \<open>The rule for a number\<close>

lemma or_F_MARK: "(f OR F_MARK) AND F_MARK \<noteq> 0"
proof -
  have "(f OR F_MARK) AND F_MARK = F_MARK"
    by (rule bit_word_eqI) (auto simp: bit_simps bit_F)
  then show ?thesis by (simp add: F_MARK_def)
qed

lemma fold_tsn_mark:
  assumes "fold (tsn_mark s) cs (ps0, nl0, ns0) = (ps, nl, ns)"
    and "\<forall>(x, y, f) \<in> set cs. f AND F_MARK = 0"
  shows "\<exists>new. ps = ps0 @ new \<and>
           map (\<lambda>(x, y, f). (x, y)) new = map (\<lambda>(x, y, f). (x, y)) cs \<and>
           ns = ns0 - int (length (filter (\<lambda>(x, y, f). f AND F_MARK \<noteq> 0) new)) \<and>
           (\<forall>(x, y, f) \<in> set new. f AND F_MARK = 0 \<longrightarrow> GRID_flags s x y AND F_BLACK = 0)"
  using assms
proof (induction cs arbitrary: ps0 nl0 ns0)
  case Nil
  then show ?case by simp
next
  case (Cons c cs)
  obtain x y f where c: "c = (x, y, f)" by (cases c)
  from Cons.prems(2) c have f0: "f AND F_MARK = 0" by simp
  have "\<exists>g nl1 ns1. tsn_mark s c (ps0, nl0, ns0) = (ps0 @ [(x, y, g)], nl1, ns1) \<and>
          ((g = f \<and> ns1 = ns0 \<and> GRID_flags s x y AND F_BLACK = 0)
          \<or> (g = f OR F_MARK \<and> ns1 = ns0 - 1))"
  proof (cases "GRID_flags s x y AND F_LIGHT \<noteq> 0")
    case True
    then show ?thesis by (simp add: tsn_mark_def c)
  next
    case nl: False
    show ?thesis
    proof (cases "could_place_light (GRID_flags s x y) (GRID_lights s x y) = 0")
      case True
      with nl show ?thesis by (simp add: tsn_mark_def c)
    next
      case False
      then have "GRID_flags s x y AND F_BLACK = 0" using could_place_light_iff by blast
      with nl False show ?thesis by (simp add: tsn_mark_def c)
    qed
  qed
  then obtain g nl1 ns1 where step: "tsn_mark s c (ps0, nl0, ns0) = (ps0 @ [(x, y, g)], nl1, ns1)"
    and g: "(g = f \<and> ns1 = ns0 \<and> GRID_flags s x y AND F_BLACK = 0)
          \<or> (g = f OR F_MARK \<and> ns1 = ns0 - 1)"
    by blast
  from Cons.prems(1) step
  have "fold (tsn_mark s) cs (ps0 @ [(x, y, g)], nl1, ns1) = (ps, nl, ns)" by simp
  from Cons.IH [OF this] Cons.prems(2) obtain new where new: "ps = (ps0 @ [(x, y, g)]) @ new"
    "map (\<lambda>(x, y, f). (x, y)) new = map (\<lambda>(x, y, f). (x, y)) cs"
    "ns = ns1 - int (length (filter (\<lambda>(x, y, f). f AND F_MARK \<noteq> 0) new))"
    "\<forall>(x, y, f) \<in> set new. f AND F_MARK = 0 \<longrightarrow> GRID_flags s x y AND F_BLACK = 0"
    by auto
  show ?case
    apply (rule exI [of _ "(x, y, g) # new"])
    using new g f0 c or_F_MARK [of f] by auto
qed

lemma tsn_impossible_safe:
  assumes "tsn_impossible ps (s, r) = (st, r')" "solver_inv k s"
    and "\<forall>(x, y, f) \<in> set ps. x < w s \<and> y < h s"
  shows "solver_inv k st \<and> w st = w s \<and> h st = h s \<and>
     (r' \<longleftrightarrow> r \<or> (\<exists>(x, y, f) \<in> set ps. f AND F_MARK = 0))"
  using assms
proof (induction ps arbitrary: s r)
  case Nil
  then show ?case by simp
next
  case (Cons p ps)
  obtain x y f where p: "p = (x, y, f)" by (cases p)
  from Cons.prems(3) p have xy: "x < w s" "y < h s" by auto
  from Cons.prems(3) have rest: "\<forall>(x, y, f) \<in> set ps. x < w s \<and> y < h s" by simp
  show ?case
  proof (cases "f AND F_MARK = 0")
    case True
    let ?s1 = "GRID_flags_set s x y (GRID_flags s x y OR F_IMPOSSIBLE)"
    from True Cons.prems(1) p have run: "tsn_impossible ps (?s1, True) = (st, r')" by simp
    have inv: "solver_inv k ?s1"
      using Cons.prems(2) xy
      by (rule solver_inv_flags) (simp_all add: and_F_LIGHT_simps and_F_BLACK_simps)
    from rest have rest1: "\<forall>(x, y, f) \<in> set ps. x < w ?s1 \<and> y < h ?s1" by simp
    from Cons.IH [OF run inv rest1] True p show ?thesis by auto
  next
    case False
    with Cons.prems(1) p have "tsn_impossible ps (s, r) = (st, r')" by simp
    from Cons.IH [OF this Cons.prems(2) rest] False p show ?thesis by auto
  qed
qed

lemma tsn_light_safe:
  assumes "solver_inv k s"
    and "\<forall>(x, y, f) \<in> set ps. x < w s \<and> y < h s \<and>
           (f AND F_MARK = 0 \<longrightarrow> GRID_flags s x y AND F_BLACK = 0)"
  shows "\<exists>st r'. tsn_light ps (s, r) = Inr (st, r') \<and> solver_inv k st \<and>
           w st = w s \<and> h st = h s \<and> (r' \<longleftrightarrow> r \<or> (\<exists>(x, y, f) \<in> set ps. f AND F_MARK = 0))"
  using assms
proof (induction ps arbitrary: s r)
  case Nil
  then show ?case by simp
next
  case (Cons p ps)
  obtain x y f where p: "p = (x, y, f)" by (cases p)
  from Cons.prems(2) p have xy: "x < w s" "y < h s" by auto
  from Cons.prems(1) have wf: "wf_state s" by (simp add: solver_inv_def)
  show ?case
  proof (cases "f AND F_MARK = 0")
    case False
    from Cons.prems(2) have rest: "\<forall>(x, y, f) \<in> set ps. x < w s \<and> y < h s \<and>
           (f AND F_MARK = 0 \<longrightarrow> GRID_flags s x y AND F_BLACK = 0)" by simp
    from Cons.IH [OF Cons.prems(1) rest, of r] False p show ?thesis by auto
  next
    case True
    with Cons.prems(2) p have white: "GRID_flags s x y AND F_BLACK = 0" by auto
    from solver_inv_set_light [OF Cons.prems(1) xy white] obtain s1
      where s1: "set_light s x y True = Inr s1" "solver_inv k s1"
        "w s1 = w s" "h s1 = h s" by blast
    have rest: "\<forall>(a, b, f) \<in> set ps. a < w s1 \<and> b < h s1 \<and>
           (f AND F_MARK = 0 \<longrightarrow> GRID_flags s1 a b AND F_BLACK = 0)"
    proof (clarify, intro conjI impI)
      fix a b g assume m: "(a, b, g) \<in> set ps"
      with Cons.prems(2) have ab: "a < w s" "b < h s"
        and wh: "g AND F_MARK = 0 \<longrightarrow> GRID_flags s a b AND F_BLACK = 0" by auto
      from ab s1 show "a < w s1" "b < h s1" by simp_all
      assume "g AND F_MARK = 0"
      with wh set_light_black [OF s1(1) wf xy ab(1), of b]
      show "GRID_flags s1 a b AND F_BLACK = 0" by simp
    qed
    from Cons.IH [OF s1(2) rest, of True] obtain st r'
      where "tsn_light ps (s1, True) = Inr (st, r')" "solver_inv k st"
        "w st = w s1" "h st = h s1" "r' \<longleftrightarrow> True \<or> (\<exists>(x, y, f) \<in> set ps. f AND F_MARK = 0)"
      by blast
    with True p s1 show ?thesis by auto
  qed
qed


lemma get_surrounds_points:
  assumes "get_surrounds s x y = Inr ps"
  shows "\<forall>(a, b, f) \<in> set ps. a < w s \<and> b < h s \<and> f AND F_MARK = 0"
  using assms by (auto simp: get_surrounds_def split: if_splits)

lemma GRID_flags_set_black:
  assumes "wf_state s" "x < w s" "y < h s" "a < w s" "v AND F_BLACK = GRID_flags s x y AND F_BLACK"
  shows "GRID_flags (GRID_flags_set s x y v) a b AND F_BLACK = GRID_flags s a b AND F_BLACK"
proof (cases "(a, b) = (x, y)")
  case True
  with assms show ?thesis by (simp add: GRID_flags_set_same)
next
  case False
  with assms show ?thesis by (simp add: GRID_flags_set_other)
qed

lemma try_solve_number_safe:
  assumes "solver_inv k s" "x < w s" "y < h s"
  shows "\<exists>st d. try_solve_number s x y fl li = Inr (st, d) \<and>
           solver_inv k st \<and> w st = w s \<and> h st = h s \<and> (\<not> d \<longrightarrow> st = s)"
proof (cases "fl AND F_NUMBERED = 0")
  case True
  then have "try_solve_number s x y fl li = Inr (s, False)" by (simp add: try_solve_number_def)
  with assms show ?thesis by auto
next
  case numbered: False
  from assms(1) have wf: "wf_state s" by (simp add: solver_inv_def)
  from get_surrounds_Inr [OF assms(2,3)] obtain pts where pts: "get_surrounds s x y = Inr pts"
    by blast
  note P = get_surrounds_points [OF pts]
  obtain ps nl ns where f: "fold (tsn_mark s) pts ([], li, int (length pts)) = (ps, nl, ns)"
    by (cases "fold (tsn_mark s) pts ([], li, int (length pts))") auto
  from P have unmarked: "\<forall>(x, y, f) \<in> set pts. f AND F_MARK = 0" by auto
  from fold_tsn_mark [OF f unmarked]
  have coords: "map (\<lambda>(x, y, f). (x, y)) ps = map (\<lambda>(x, y, f). (x, y)) pts"
    and ns: "ns = int (length pts) - int (length (filter (\<lambda>(x, y, f). f AND F_MARK \<noteq> 0) ps))"
    and white: "\<forall>(x, y, f) \<in> set ps. f AND F_MARK = 0 \<longrightarrow> GRID_flags s x y AND F_BLACK = 0"
    by auto
  from coords have len: "length ps = length pts" by (metis length_map)
  have rng: "a < w s \<and> b < h s" if "(a, b, g) \<in> set ps" for a b g
  proof -
    from that have "(a, b) \<in> set (map (\<lambda>(x, y, f). (x, y)) ps)" by force
    with coords have "(a, b) \<in> set (map (\<lambda>(x, y, f). (x, y)) pts)" by simp
    with P show ?thesis by auto
  qed
  have some: "\<exists>(x, y, f) \<in> set ps. f AND F_MARK = 0" if "ns \<noteq> 0"
  proof (rule ccontr)
    assume "\<not> (\<exists>(x, y, f) \<in> set ps. f AND F_MARK = 0)"
    then have "filter (\<lambda>(x, y, f). f AND F_MARK \<noteq> 0) ps = ps"
      by (auto simp: filter_id_conv)
    with ns len that show False by simp
  qed
  let ?s1 = "GRID_flags_set s x y (GRID_flags s x y OR F_NUMBERUSED)"
  have s1: "solver_inv k ?s1"
    using assms by (rule solver_inv_flags) (simp_all add: and_F_LIGHT_simps and_F_BLACK_simps)
  have d1: "w ?s1 = w s" "h ?s1 = h s" by simp_all
  have black1: "GRID_flags ?s1 a b AND F_BLACK = GRID_flags s a b AND F_BLACK" if "a < w s" for a b
    using wf assms(2,3) that by (intro GRID_flags_set_black) (simp_all add: and_F_BLACK_simps)
  show ?thesis
  proof (cases "ns = 0")
    case True
    with numbered pts f have "try_solve_number s x y fl li = Inr (s, False)"
      by (simp add: try_solve_number_def)
    with assms show ?thesis by auto
  next
    case ns0: False
    show ?thesis
    proof (cases "nl = 0")
      case True
      obtain st r where ti: "tsn_impossible ps (?s1, False) = (st, r)"
        by (cases "tsn_impossible ps (?s1, False)") auto
      have pre: "\<forall>(a, b, g) \<in> set ps. a < w ?s1 \<and> b < h ?s1"
        using rng by fastforce
      from tsn_impossible_safe [OF ti s1 pre] some [OF ns0]
      have st: "solver_inv k st" "w st = w s" "h st = h s" "r" by auto
      from numbered pts f ns0 True ti
      have "try_solve_number s x y fl li = Inr (st, r)" by (simp add: try_solve_number_def)
      then show ?thesis using st by auto
    next
      case nl0: False
      show ?thesis
      proof (cases "nl = ns")
        case False
        with numbered pts f ns0 nl0 have "try_solve_number s x y fl li = Inr (s, False)"
          by (simp add: try_solve_number_def)
        with assms show ?thesis by auto
      next
        case True
        have pre: "\<forall>(a, b, g) \<in> set ps. a < w ?s1 \<and> b < h ?s1 \<and>
             (g AND F_MARK = 0 \<longrightarrow> GRID_flags ?s1 a b AND F_BLACK = 0)"
          using rng white black1 by fastforce
        from tsn_light_safe [OF s1 pre, of False] some [OF ns0] obtain st r
          where st: "tsn_light ps (?s1, False) = Inr (st, r)" "solver_inv k st"
            "w st = w ?s1" "h st = h ?s1" "r"
          by auto
        from numbered pts f ns0 nl0 True st(1)
        have "try_solve_number s x y fl li = Inr (st, r)" by (simp add: try_solve_number_def)
        with st show ?thesis by auto
      qed
    qed
  qed
qed

subsection \<open>One pass, and the square to guess\<close>

lemma solve_pass_didstuff:
  "solve_pass cells (s, nc, True) = Inr (st, nc', ds') \<Longrightarrow> ds'"
proof (induction cells arbitrary: s nc)
  case Nil
  then show ?case by simp
next
  case (Cons e es)
  then show ?case
    by (cases e) (auto simp: Let_def split: sum.splits)
qed

lemma solve_pass_safe:
  assumes "solver_inv k s" "\<forall>(x, y) \<in> set cells. x < w s \<and> y < h s"
  shows "\<exists>st nc' ds'. solve_pass cells (s, nc, ds) = Inr (st, nc', ds') \<and>
           solver_inv k st \<and> w st = w s \<and> h st = h s \<and>
           (\<not> ds' \<longrightarrow> st = s \<and>
              nc' = nc + sum_list (map (\<lambda>(x, y).
                  could_place_light (GRID_flags s x y) (GRID_lights s x y)) cells))"
  using assms
proof (induction cells arbitrary: s nc ds)
  case Nil
  then show ?case by simp
next
  case (Cons c cells)
  obtain x y where c: "c = (x, y)" by (cases c)
  from Cons.prems(2) c have xy: "x < w s" "y < h s" by auto
  let ?fl = "GRID_flags s x y" and ?li = "GRID_lights s x y"
  from try_solve_light_safe [OF Cons.prems(1) xy, of ?li] obtain s1 d1
    where s1: "try_solve_light s x y ?fl ?li = Inr (s1, d1)" "solver_inv k s1"
      "w s1 = w s" "h s1 = h s" "\<not> d1 \<longrightarrow> s1 = s"
    by blast
  from xy s1 have xy1: "x < w s1" "y < h s1" by simp_all
  from try_solve_number_safe [OF s1(2) xy1, of ?fl ?li] obtain s2 d2
    where s2: "try_solve_number s1 x y ?fl ?li = Inr (s2, d2)" "solver_inv k s2"
      "w s2 = w s1" "h s2 = h s1" "\<not> d2 \<longrightarrow> s2 = s1"
    by blast
  from Cons.prems(2) s1 s2 have rest: "\<forall>(x, y) \<in> set cells. x < w s2 \<and> y < h s2" by auto
  from Cons.IH [OF s2(2) rest, of "nc + could_place_light ?fl ?li" "ds \<or> d1 \<or> d2"]
  obtain st nc' ds' where st:
    "solve_pass cells (s2, nc + could_place_light ?fl ?li, ds \<or> d1 \<or> d2) = Inr (st, nc', ds')"
    "solver_inv k st" "w st = w s2" "h st = h s2"
    "\<not> ds' \<longrightarrow> st = s2 \<and>
       nc' = (nc + could_place_light ?fl ?li) + sum_list (map (\<lambda>(x, y).
                  could_place_light (GRID_flags s2 x y) (GRID_lights s2 x y)) cells)"
    by blast
  have run: "solve_pass (c # cells) (s, nc, ds) = Inr (st, nc', ds')"
    using s1(1) s2(1) st(1) by (simp add: c Let_def)
  have same: "\<not> ds' \<longrightarrow> \<not> d1 \<and> \<not> d2"
  proof
    assume nds: "\<not> ds'"
    show "\<not> d1 \<and> \<not> d2"
    proof (rule ccontr)
      assume "\<not> (\<not> d1 \<and> \<not> d2)"
      then have d: "ds \<or> d1 \<or> d2" by blast
      with st(1) have "ds'" using solve_pass_didstuff by simp
      with nds show False by simp
    qed
  qed
  show ?case
    apply (rule exI [of _ st], rule exI [of _ nc'], rule exI [of _ ds'])
    using run st s1 s2 same c by auto
qed


lemma fold_best_step_cell:
  assumes "fold (best_step s) cs (bn, bx, by) = (bn', bx', by')"
    and "0 \<le> bn"
    and "0 < bn \<longrightarrow> nat bx < w s \<and> nat by < h s \<and>
           could_place_light (GRID_flags s (nat bx) (nat by)) (GRID_lights s (nat bx) (nat by)) \<noteq> 0"
    and "\<forall>(x, y) \<in> set cs. x < w s \<and> y < h s"
  shows "0 < bn' \<longrightarrow> nat bx' < w s \<and> nat by' < h s \<and>
           could_place_light (GRID_flags s (nat bx') (nat by')) (GRID_lights s (nat bx') (nat by')) \<noteq> 0"
  using assms
proof (induction cs arbitrary: bn bx "by")
  case Nil
  then show ?case by simp
next
  case (Cons c cs)
  obtain x y where c: "c = (x, y)" by (cases c)
  from Cons.prems(4) c have xy: "x < w s" "y < h s" by auto
  obtain n1 x1 y1 where st: "best_step s c (bn, bx, by) = (n1, x1, y1)"
    by (cases "best_step s c (bn, bx, by)") auto
  from best_step_mono [OF st] Cons.prems(2) have n1: "0 \<le> n1" by simp
  have keep: "0 < n1 \<longrightarrow> nat x1 < w s \<and> nat y1 < h s \<and>
           could_place_light (GRID_flags s (nat x1) (nat y1)) (GRID_lights s (nat x1) (nat y1)) \<noteq> 0"
    using st Cons.prems(3) xy
    by (auto simp: best_step_def c Let_def split: if_splits)
  from Cons.prems(1) st have "fold (best_step s) cs (n1, x1, y1) = (bn', bx', by')" by simp
  from Cons.IH [OF this n1 keep] Cons.prems(4) show ?case by simp
qed

lemma sum_list_could_place:
  "sum_list (map (\<lambda>(x, y). could_place_light (GRID_flags s x y) (GRID_lights s x y)) cells) \<noteq> 0
     \<Longrightarrow> \<exists>(x, y) \<in> set cells. could_place_light (GRID_flags s x y) (GRID_lights s x y) \<noteq> 0"
  by (induction cells) auto

lemma copy_planes_eq:
  assumes "wf_state t" "w t = w s" "h t = h s" "wf_state s"
  shows "copy_planes s t = s\<lparr>lights := lights t, flags := flags t\<rparr>"
  using assms by (simp add: copy_planes_def wf_state_def)

lemma solver_post_Inr [simp]:
  "solver_post k s (Inr (r, st, md)) \<longleftrightarrow> solver_inv k st \<and> w st = w s \<and> h st = h s"
  by (simp add: solver_post_def)

lemma solver_post_Inl [simp]: "solver_post k s (Inl e) \<longleftrightarrow> e = OutOfFuel"
  by (simp add: solver_post_def)

lemma solver_post_dims:
  "solver_post k s res \<Longrightarrow> w s' = w s \<Longrightarrow> h s' = h s \<Longrightarrow> solver_post k s' res"
  by (auto simp: solver_post_def split: sum.splits)

text \<open>
  From a state that satisfies the invariant, a run of \<open>solve_sub\<close> with any amount of fuel
  fails no assertion (not the two of the choice of a square, nor those of \<open>set_light\<close>
  and \<open>get_surrounds\<close>), and the state that it leaves satisfies the invariant.
\<close>

lemma solve_sub_loop_post:
  "solver_inv k s \<Longrightarrow> solver_post k s (solve_sub_loop n s fu mr d md)"
proof (induction n arbitrary: s d md)
  case 0
  show ?case by simp
next
  case (Suc n)
  note inv = Suc.prems(1)
  from inv have wf: "wf_state s" and nn: "lights_nonneg s" by (simp_all add: solver_inv_def)
  show ?case
  proof (cases "grid_overlap s")
    case True
    with inv show ?thesis by simp
  next
    case no: False
    obtain b where gc: "grid_correct s = Inr b" using grid_correct_Inr by blast
    show ?thesis
    proof (cases b)
      case True
      with no gc inv show ?thesis by simp
    next
      case nb: False
      have rng: "\<forall>(x, y) \<in> set (cells_xy (w s) (h s)). x < w s \<and> y < h s"
        by (simp add: set_cells_xy)
      from solve_pass_safe [OF inv rng, of 0 False] obtain s1 nc ds where
        p: "solve_pass (cells_xy (w s) (h s)) (s, 0, False) = Inr (s1, nc, ds)"
        and i1: "solver_inv k s1" "w s1 = w s" "h s1 = h s"
        and same: "\<not> ds \<longrightarrow> s1 = s \<and>
              nc = 0 + sum_list (map (\<lambda>(x, y).
                  could_place_light (GRID_flags s x y) (GRID_lights s x y)) (cells_xy (w s) (h s)))"
        by blast
      show ?thesis
      proof (cases "ds \<or> nc = 0 \<or> mr \<le> d")
        case True
        have "solver_post k s (solve_sub_loop n s1 fu mr d md)"
          using Suc.IH [OF i1(1)] i1(2,3) by (intro solver_post_dims [of k s1 _ s]) simp_all
        with True no gc nb p i1 show ?thesis by auto
      next
        case False
        then have nds: "\<not> ds" and nc: "nc \<noteq> 0" and deep: "\<not> mr \<le> d" by simp_all
        from same nds have s1: "s1 = s" and
          "nc = sum_list (map (\<lambda>(x, y).
                  could_place_light (GRID_flags s x y) (GRID_lights s x y)) (cells_xy (w s) (h s)))"
          by simp_all
        with nc sum_list_could_place [of s "cells_xy (w s) (h s)"]
        obtain x y where cell: "(x, y) \<in> set (cells_xy (w s) (h s))"
          "could_place_light (GRID_flags s x y) (GRID_lights s x y) \<noteq> 0"
          by auto
        from choose_best_positive [OF nn cell] obtain bn bx "by"
          where best: "choose_best s = (bn, bx, by)" "0 < bn" "0 \<le> bx" "0 \<le> by"
          by blast
        from fold_best_step_cell [OF best(1) [unfolded choose_best_def] _ _ rng] best(2)
        have bcell: "nat bx < w s" "nat by < h s"
          "could_place_light (GRID_flags s (nat bx) (nat by)) (GRID_lights s (nat bx) (nat by)) \<noteq> 0"
          by simp_all
        then have white: "GRID_flags s (nat bx) (nat by) AND F_BLACK = 0"
          by (simp add: could_place_light_iff)
        let ?state2 = "GRID_flags_set s (nat bx) (nat by)
                         (GRID_flags s (nat bx) (nat by) OR F_IMPOSSIBLE)"
        have i2: "solver_inv k ?state2"
          using inv bcell(1,2)
          by (rule solver_inv_flags) (simp_all add: and_F_LIGHT_simps and_F_BLACK_simps)
        let ?r1 = "solve_sub_loop n ?state2 fu mr (d + 1) (note_depth md (d + 1))"
        have r1: "solver_post k ?state2 ?r1" using i2 by (rule Suc.IH)
        from solver_inv_set_light [OF inv bcell(1,2) white] obtain sc1
          where sc1: "set_light s (nat bx) (nat by) True = Inr sc1" "solver_inv k sc1"
            "w sc1 = w s" "h sc1 = h s" by blast
        have r2: "solver_post k sc1 (solve_sub_loop n sc1 fu mr (d + 1) m)" for m
          using sc1(2) by (rule Suc.IH)
        have dup: "dup_game s = s" using wf by (rule dup_game_wf)
        have eq: "solve_sub_loop (Suc n) s fu mr d md =
            (case ?r1 of
               Inl e \<Rightarrow> Inl e
             | Inr (self_soluble, state3, maxdepth1) \<Rightarrow>
                 if \<not> fu \<and> self_soluble > 0 then Inr (self_soluble, state3, maxdepth1)
                 else
                   (case set_light s (nat bx) (nat by) True of
                      Inl e \<Rightarrow> Inl e
                    | Inr scopy1 \<Rightarrow>
                   (case solve_sub_loop n scopy1 fu mr (d + 1) (note_depth maxdepth1 (d + 1)) of
                      Inl e \<Rightarrow> Inl e
                    | Inr (copy_soluble, scopy2, maxdepth2) \<Rightarrow>
                        if fu \<and> (copy_soluble < 0 \<or> self_soluble < 0)
                        then Inr (- 1, state3, maxdepth2)
                        else if copy_soluble \<le> 0
                        then Inr (self_soluble, state3, maxdepth2)
                        else if self_soluble \<le> 0
                        then Inr (copy_soluble, copy_planes state3 scopy2, maxdepth2)
                        else Inr (copy_soluble + self_soluble, state3, maxdepth2))))"
          using no gc nb p nds nc deep best unfolding s1
          by (simp add: dup Let_def)
        show ?thesis
        proof (cases ?r1)
          case (Inl e)
          with r1 show ?thesis unfolding eq by simp
        next
          case (Inr t)
          obtain ss st3 md1 where t: "t = (ss, st3, md1)" by (cases t)
          from r1 Inr t have i3: "solver_inv k st3" "w st3 = w s" "h st3 = h s" by simp_all
          show ?thesis
          proof (cases "\<not> fu \<and> ss > 0")
            case True
            with i3 show ?thesis unfolding eq Inr t by simp
          next
            case False
            show ?thesis
            proof (cases "solve_sub_loop n sc1 fu mr (d + 1) (note_depth md1 (d + 1))")
              case (Inl e)
              with r2 [of "note_depth md1 (d + 1)"] False show ?thesis
                unfolding eq \<open>?r1 = Inr t\<close> t by (auto simp: sc1(1))
            next
              case r: (Inr u)
              obtain cs sc2 md2 where u: "u = (cs, sc2, md2)" by (cases u)
              from r2 [of "note_depth md1 (d + 1)"] r u sc1
              have i4: "solver_inv k sc2" "w sc2 = w s" "h sc2 = h s" by simp_all
              have cp: "copy_planes st3 sc2 = st3\<lparr>lights := lights sc2, flags := flags sc2\<rparr>"
                using i3 i4 by (intro copy_planes_eq) (simp_all add: solver_inv_def)
              have i5: "solver_inv k (copy_planes st3 sc2)"
                unfolding cp using i4(1) by (rule solver_inv_planes) (simp_all add: i3 i4)
              have d5: "w (copy_planes st3 sc2) = w s" "h (copy_planes st3 sc2) = h s"
                unfolding cp using i3 by simp_all
              from False i3 i5 d5 show ?thesis
                unfolding eq \<open>?r1 = Inr t\<close> t by (simp add: sc1(1) r u)
            qed
          qed
        qed
      qed
    qed
  qed
qed

lemma solve_sub_loop_no_assert:
  assumes "wf_state s" "lights_nonneg s"
  shows "solve_sub_loop n s fu mr d md \<noteq> Inl AssertFailed"
proof -
  from assms have "solver_inv False s" by (simp add: solver_inv_def)
  from solve_sub_loop_post [OF this, of n fu mr d md] show ?thesis
    by (auto simp: solver_post_def)
qed

section \<open>The invariants of the reachable states\<close>

subsection \<open>The solver\<close>

lemma clear_numberused_inv:
  assumes "solver_inv k s" "\<forall>(x, y) \<in> set cs. x < w s \<and> y < h s"
  shows "solver_inv k (fold (\<lambda>(x, y) st. GRID_flags_set st x y (GRID_flags st x y AND NOT F_NUMBERUSED)) cs s)
       \<and> w (fold (\<lambda>(x, y) st. GRID_flags_set st x y (GRID_flags st x y AND NOT F_NUMBERUSED)) cs s) = w s
       \<and> h (fold (\<lambda>(x, y) st. GRID_flags_set st x y (GRID_flags st x y AND NOT F_NUMBERUSED)) cs s) = h s"
  using assms
proof (induction cs arbitrary: s)
  case Nil
  then show ?case by simp
next
  case (Cons c cs)
  obtain x y where c: "c = (x, y)" by (cases c)
  from Cons.prems(2) c have xy: "x < w s" "y < h s" by auto
  let ?s1 = "GRID_flags_set s x y (GRID_flags s x y AND NOT F_NUMBERUSED)"
  have inv: "solver_inv k ?s1"
    using Cons.prems(1) xy by (rule solver_inv_flags) (simp_all add: and_NUMBERUSED_simps)
  from Cons.prems(2) have rest: "\<forall>(x, y) \<in> set cs. x < w ?s1 \<and> y < h ?s1" by simp
  from Cons.IH [OF inv rest] show ?case by (simp add: c)
qed

text \<open>
  \<open>dosolve\<close> fails no assertion from a state that satisfies the invariant, and leaves a
  state that satisfies it.
\<close>

lemma dosolve_post:
  assumes "solver_inv k s"
  shows "solver_post k s (dosolve n s ag fu md)"
proof -
  let ?c = "fold (\<lambda>(x, y) st. GRID_flags_set st x y (GRID_flags st x y AND NOT F_NUMBERUSED))
              (cells_xy (w s) (h s)) s"
  have "\<forall>(x, y) \<in> set (cells_xy (w s) (h s)). x < w s \<and> y < h s" by (simp add: set_cells_xy)
  from clear_numberused_inv [OF assms this]
  have c: "solver_inv k ?c" "w ?c = w s" "h ?c = h s" by simp_all
  have "solver_post k ?c (dosolve n s ag fu md)"
    unfolding dosolve_def solve_sub_def using c(1) by (rule solve_sub_loop_post)
  then show ?thesis using c(2,3) by (intro solver_post_dims [of k ?c _ s]) simp_all
qed

subsection \<open>The moves\<close>

lemma GRID_flags_set_keep:
  assumes "wf_state s" "x < w s" "y < h s"
    and "v AND F_LIGHT = GRID_flags s x y AND F_LIGHT"
    and "v AND F_BLACK = GRID_flags s x y AND F_BLACK"
  shows "lit_inv (GRID_flags_set s x y v) = lit_inv s"
    and "count_lights (GRID_flags_set s x y v) = count_lights s"
proof -
  let ?t = "GRID_flags_set s x y v"
  have fl: "GRID_flags ?t a b AND F_LIGHT = GRID_flags s a b AND F_LIGHT
          \<and> GRID_flags ?t a b AND F_BLACK = GRID_flags s a b AND F_BLACK" if "a < w s" for a b
  proof (cases "(a, b) = (x, y)")
    case True
    with assms show ?thesis by (simp add: GRID_flags_set_same)
  next
    case False
    with assms(2) that show ?thesis by (simp add: GRID_flags_set_other)
  qed
  show "lit_inv ?t = lit_inv s" using fl by (intro lit_inv_cong) simp_all
  show "count_lights ?t = count_lights s" using fl by (intro count_lights_cong) simp_all
qed

lemma used_solve_keep:
  "lit_inv (s\<lparr>used_solve := u\<rparr>) = lit_inv s"
  "count_lights (s\<lparr>used_solve := u\<rparr>) = count_lights s"
  "lit_inv (s\<lparr>completed := c\<rparr>) = lit_inv s"
  "count_lights (s\<lparr>completed := c\<rparr>) = count_lights s"
  by (intro lit_inv_cong count_lights_cong; simp add: GRID_flags_def)+

lemma execute_cmd_inv:
  assumes run: "execute_cmd ret c move = Inr (Some (ret', rest))" and wf: "wf_state ret"
  shows "lit_inv ret \<Longrightarrow> lit_inv ret'"
    and "nlights ret = count_lights ret \<Longrightarrow> nlights ret' = count_lights ret'"
proof -
  have "(lit_inv ret \<longrightarrow> lit_inv ret')
      \<and> (nlights ret = count_lights ret \<longrightarrow> nlights ret' = count_lights ret')"
    using run
  proof (cases rule: execute_cmd_cases)
    case S
    then show ?thesis by (simp add: used_solve_keep)
  next
    case (L x y)
    let ?s1 = "GRID_flags_set ret x y (GRID_flags ret x y AND NOT F_IMPOSSIBLE)"
    note K = GRID_flags_set_keep [OF wf L(3,4), of "GRID_flags ret x y AND NOT F_IMPOSSIBLE"]
    have wf1: "wf_state ?s1" using wf by simp
    have xy1: "x < w ?s1" "y < h ?s1" using L(3,4) by simp_all
    have white1: "GRID_flags ?s1 x y AND F_BLACK = 0"
      using wf L(3,4,5) by (simp add: GRID_flags_set_same and_F_BLACK_simps)
    note I = set_light_invariants [OF wf1 xy1 white1 L(6)]
    from I K show ?thesis by (simp add: and_F_LIGHT_simps and_F_BLACK_simps)
  next
    case (I x y r1)
    note J = set_light_invariants [OF wf I(3,4,5,6)]
    have wf1: "wf_state r1" using set_light_wf [OF I(6)] wf by simp
    have xy1: "x < w r1" "y < h r1" using I(3,4) set_light_fields [OF I(6)] by simp_all
    note K = GRID_flags_set_keep [OF wf1 xy1, of "GRID_flags r1 x y XOR F_IMPOSSIBLE"]
    from J K I(7) show ?thesis by (simp add: and_F_LIGHT_simps and_F_BLACK_simps)
  qed
  then show "lit_inv ret \<Longrightarrow> lit_inv ret'"
    and "nlights ret = count_lights ret \<Longrightarrow> nlights ret' = count_lights ret'" by simp_all
qed

lemma execute_move_loop_inv:
  assumes "execute_move_loop ret move = Inr (Some ret')" "wf_state ret"
  shows "wf_state ret' \<and> (lit_inv ret \<longrightarrow> lit_inv ret')
       \<and> (nlights ret = count_lights ret \<longrightarrow> nlights ret' = count_lights ret')"
  using assms
proof (induction ret move rule: execute_move_loop.induct)
  case (1 ret)
  then show ?case by simp
next
  case (2 ret c move)
  from "2.prems"(1) obtain r1 rest where
    cmd: "execute_cmd ret c move = Inr (Some (r1, rest))"
    by (auto split: sum.splits option.splits)
  have wf1: "wf_state r1" using execute_cmd_wf [OF cmd] "2.prems"(2) by simp
  note C = execute_cmd_inv [OF cmd "2.prems"(2)]
  show ?case
  proof (cases "rest \<noteq> [] \<and> hd rest = CHR '';''")
    case True
    with "2.prems"(1) cmd have "execute_move_loop r1 (tl rest) = Inr (Some ret')" by simp
    from "2.IH"(1) [OF cmd refl refl _ this wf1] True C show ?thesis by auto
  next
    case False
    with "2.prems"(1) cmd have rest: "rest = []" and "execute_move_loop r1 rest = Inr (Some ret')"
      by (auto split: if_splits)
    from "2.IH"(2) [OF cmd refl refl _ _ this(2) wf1] False rest C show ?thesis by auto
  qed
qed

text \<open>
  A move keeps the state well formed and the lit counts right, and it keeps \<open>nlights\<close>
  equal to the number of lights.
\<close>

lemma execute_move_inv:
  assumes "execute_move s m = Inr (Some s')" "wf_state s"
  shows "wf_state s'" and "lit_inv s \<Longrightarrow> lit_inv s'"
    and "nlights s = count_lights s \<Longrightarrow> nlights s' = count_lights s'"
proof -
  from assms(2) have dup: "dup_game s = s" by (rule dup_game_wf)
  from assms(1) have "\<exists>r. execute_move_loop s m = Inr (Some r) \<and> (s' = r\<lparr>completed := 1\<rparr> \<or> s' = r)"
    by (auto simp: execute_move_def dup Let_def split: if_splits sum.splits option.splits)
  then obtain r where loop: "execute_move_loop s m = Inr (Some r)"
    and s': "s' = r\<lparr>completed := 1\<rparr> \<or> s' = r"
    by blast
  note L = execute_move_loop_inv [OF loop assms(2)]
  from L s' show "wf_state s'" by auto
  from L s' show "lit_inv s \<Longrightarrow> lit_inv s'" by (auto simp: used_solve_keep)
  from L s' show "nlights s = count_lights s \<Longrightarrow> nlights s' = count_lights s'"
    by (auto simp: used_solve_keep)
qed


subsection \<open>The fresh state\<close>

lemma fresh_inv_iff:
  "fresh_inv s \<longleftrightarrow>
     wf_state s \<and> nlights s = 0 \<and>
     (\<forall>a b. a < w s \<and> b < h s \<longrightarrow>
        GRID_flags s a b AND F_LIGHT = 0 \<and> 0 \<le> GRID_lights s a b \<and>
        (GRID_flags s a b AND F_BLACK = 0 \<longrightarrow> GRID_lights s a b = 0))"
  by (auto simp: fresh_inv_def list_all_iff set_cells_xy)

lemma or_F_simps:
  "(v OR F_NUMBERED) AND F_LIGHT = v AND F_LIGHT"
  "(v OR F_BLACK) AND F_LIGHT = v AND F_LIGHT"
  "(v OR F_BLACK) AND F_BLACK = F_BLACK"
  by (rule bit_word_eqI; auto simp: bit_simps bit_F)+

lemma fresh_inv_black:
  assumes "fresh_inv s" "x < w s" "y < h s"
  shows "fresh_inv (GRID_flags_set s x y (GRID_flags s x y OR F_BLACK))"
proof -
  let ?t = "GRID_flags_set s x y (GRID_flags s x y OR F_BLACK)"
  from assms(1) have wf: "wf_state s" by (simp add: fresh_inv_iff)
  have "GRID_flags ?t a b AND F_LIGHT = 0 \<and> 0 \<le> GRID_lights ?t a b \<and>
        (GRID_flags ?t a b AND F_BLACK = 0 \<longrightarrow> GRID_lights ?t a b = 0)"
    if "a < w s" "b < h s" for a b
  proof (cases "(a, b) = (x, y)")
    case True
    with assms wf that show ?thesis
      by (simp add: GRID_flags_set_same or_F_simps F_nonzero fresh_inv_iff GRID_lights_def)
  next
    case False
    with assms that show ?thesis
      by (simp add: GRID_flags_set_other fresh_inv_iff GRID_lights_def)
  qed
  with assms(1) show ?thesis by (simp add: fresh_inv_iff)
qed

lemma fresh_inv_numbered:
  assumes "fresh_inv s" "x < w s" "y < h s" "0 \<le> v"
  shows "fresh_inv
    (GRID_flags_set (GRID_lights_set (GRID_flags_set s x y (GRID_flags s x y OR F_NUMBERED)) x y v) x y
       (GRID_flags (GRID_lights_set (GRID_flags_set s x y (GRID_flags s x y OR F_NUMBERED)) x y v) x y
          OR F_BLACK))"
proof -
  let ?r1 = "GRID_flags_set s x y (GRID_flags s x y OR F_NUMBERED)"
  let ?r2 = "GRID_lights_set ?r1 x y v"
  let ?t = "GRID_flags_set ?r2 x y (GRID_flags ?r2 x y OR F_BLACK)"
  from assms(1) have wf: "wf_state s" by (simp add: fresh_inv_iff)
  have wf1: "wf_state ?r1" and wf2: "wf_state ?r2" using wf by simp_all
  have "GRID_flags ?t a b AND F_LIGHT = 0 \<and> 0 \<le> GRID_lights ?t a b \<and>
        (GRID_flags ?t a b AND F_BLACK = 0 \<longrightarrow> GRID_lights ?t a b = 0)"
    if "a < w s" "b < h s" for a b
  proof (cases "(a, b) = (x, y)")
    case True
    have f: "GRID_flags ?t x y = (GRID_flags s x y OR F_NUMBERED) OR F_BLACK"
      using wf wf1 wf2 assms(2,3) by (simp add: GRID_flags_set_same)
    have l: "GRID_lights ?t x y = v"
      using wf1 assms(2,3) GRID_lights_set_same [of ?r1 x y v]
      by (simp add: GRID_lights_def)
    from True have ab: "a = x" "b = y" by simp_all
    have g1: "GRID_flags ?t x y AND F_LIGHT = 0"
      unfolding f using assms(1-3) by (simp add: or_F_simps fresh_inv_iff)
    have g2: "GRID_flags ?t x y AND F_BLACK \<noteq> 0"
      unfolding f by (simp add: or_F_simps F_nonzero)
    have g3: "0 \<le> GRID_lights ?t x y" unfolding l using assms(4) .
    show ?thesis unfolding ab using g1 g2 g3 by blast
  next
    case False
    have f: "GRID_flags ?t a b = GRID_flags s a b"
      using False that assms(2) by (simp add: GRID_flags_set_other)
    have l: "GRID_lights ?t a b = GRID_lights s a b"
      using False that assms(2) GRID_lights_set_other [of x ?r1 a b y v]
      by (simp add: GRID_lights_def)
    from assms(1) that have "GRID_flags s a b AND F_LIGHT = 0 \<and> 0 \<le> GRID_lights s a b \<and>
        (GRID_flags s a b AND F_BLACK = 0 \<longrightarrow> GRID_lights s a b = 0)"
      by (simp add: fresh_inv_iff)
    then show ?thesis unfolding f l .
  qed
  with assms(1) show ?thesis by (simp add: fresh_inv_iff)
qed

lemma new_game_loop_inv:
  assumes "new_game_loop cells desc run ret = Inr (rest, s)" "fresh_inv ret"
    and "\<forall>(x, y) \<in> set cells. x < w ret \<and> y < h ret"
  shows "fresh_inv s"
  using assms
proof (induction cells arbitrary: desc run ret)
  case Nil
  then show ?case by simp
next
  case (Cons c cells)
  obtain x y where c: "c = (x, y)" by (cases c)
  from Cons.prems(3) c have xy: "x < w ret" "y < h ret" by auto
  from Cons.prems(3) have rest: "\<forall>(x, y) \<in> set cells. x < w ret \<and> y < h ret" by simp
  define c0 where "c0 = (if run = 0 then (if desc = [] then CHR 0x00 else hd desc) else CHR 0x00)"
  define desc1 where "desc1 = (if run = 0 then tl desc else desc)"
  define run1 where "run1 = (if run = 0 \<and> 97 \<le> (of_char c0 :: nat) \<and> (of_char c0 :: nat) \<le> 122
                        then int (of_char c0) - 97 + 1 else run)"
  define ch where "ch = (if run1 > 0 then CHR ''S'' else c0)"
  define run2 where "run2 = (if run1 > 0 then run1 - 1 else run1)"
  define r3 where "r3 =
    GRID_flags_set (GRID_lights_set (GRID_flags_set ret x y (GRID_flags ret x y OR F_NUMBERED)) x y
                      (int (of_char ch) - 48)) x y
       (GRID_flags (GRID_lights_set (GRID_flags_set ret x y (GRID_flags ret x y OR F_NUMBERED)) x y
                      (int (of_char ch) - 48)) x y OR F_BLACK)"
  have eq: "new_game_loop (c # cells) desc run ret =
     (if run = 0 \<and> c0 = CHR ''S'' then Inl AssertFailed
      else if 48 \<le> (of_char ch :: nat) \<and> (of_char ch :: nat) \<le> 52
           then new_game_loop cells desc1 run2 r3
      else if ch = CHR ''B'' then
                 new_game_loop cells desc1 run2
                   (GRID_flags_set ret x y (GRID_flags ret x y OR F_BLACK))
      else if ch = CHR ''S'' then new_game_loop cells desc1 run2 ret
      else Inl AssertFailed)"
    unfolding c new_game_loop.simps Let_def c0_def desc1_def run1_def ch_def run2_def r3_def
    by (rule refl)
  show ?case
  proof (cases "48 \<le> (of_char ch :: nat) \<and> (of_char ch :: nat) \<le> 52")
    case True
    with Cons.prems(1) have run: "new_game_loop cells desc1 run2 r3 = Inr (rest, s)"
      unfolding eq by (simp split: if_splits)
    from True have "0 \<le> int (of_char ch) - 48" by simp
    from fresh_inv_numbered [OF Cons.prems(2) xy this] have inv: "fresh_inv r3"
      by (simp add: r3_def)
    have "\<forall>(x, y) \<in> set cells. x < w r3 \<and> y < h r3" using rest by (simp add: r3_def)
    from Cons.IH [OF run inv this] show ?thesis .
  next
    case nd: False
    show ?thesis
    proof (cases "ch = CHR ''B''")
      case True
      let ?r = "GRID_flags_set ret x y (GRID_flags ret x y OR F_BLACK)"
      from True nd Cons.prems(1) have run: "new_game_loop cells desc1 run2 ?r = Inr (rest, s)"
        unfolding eq by (simp split: if_splits)
      from fresh_inv_black [OF Cons.prems(2) xy] have inv: "fresh_inv ?r" .
      have "\<forall>(x, y) \<in> set cells. x < w ?r \<and> y < h ?r" using rest by simp
      from Cons.IH [OF run inv this] show ?thesis .
    next
      case False
      with nd Cons.prems(1) have run: "new_game_loop cells desc1 run2 ret = Inr (rest, s)"
        unfolding eq by (simp split: if_splits)
      from Cons.IH [OF run Cons.prems(2) rest] show ?thesis .
    qed
  qed
qed

lemma set_cells_yx: "set (cells_yx wd ht) = {(x, y). x < wd \<and> y < ht}"
  by (auto simp: cells_yx_def)

lemma fresh_inv_new_state: "fresh_inv (new_state params)"
  by (simp add: fresh_inv_iff wf_state_def new_state_def GRID_flags_def GRID_lights_def
      cell_index_less)

lemma fresh_inv_lit_inv:
  assumes "fresh_inv s"
  shows "lit_inv s" and "nlights s = count_lights s"
proof -
  from assms have dark: "GRID_flags s a b AND F_LIGHT = 0" if "a < w s" "b < h s" for a b
    using that by (simp add: fresh_inv_iff)
  have "filter (\<lambda>p. GRID_flags s (fst p) (snd p) AND F_LIGHT \<noteq> 0 \<and> sees s p q)
          (cells_xy (w s) (h s)) = []" for q
    using dark by (auto simp: filter_empty_conv set_cells_xy)
  then have "lit_by s q = 0" for q by (simp add: lit_by_def)
  with assms show "lit_inv s" by (simp add: lit_inv_iff fresh_inv_iff)
  have "filter (\<lambda>(x, y). GRID_flags s x y AND F_LIGHT \<noteq> 0) (cells_xy (w s) (h s)) = []"
    using dark by (auto simp: filter_empty_conv set_cells_xy)
  with assms show "nlights s = count_lights s" by (simp add: count_lights_def fresh_inv_iff)
qed

text \<open>
  \<open>new_game\<close> makes a well-formed state without a light, where every lit count of a white
  cell is 0 and \<open>nlights\<close> is 0.
\<close>

lemma new_game_inv:
  assumes "new_game params desc = Inr s"
  shows "wf_state s" and "lit_inv s" and "nlights s = count_lights s"
proof -
  from assms obtain rest where
    run: "new_game_loop (cells_yx (nat (game_params.w params)) (nat (game_params.h params)))
            desc 0 (new_state params) = Inr (rest, s)"
    by (auto simp: new_game_def split: sum.splits if_splits)
  have "\<forall>(x, y) \<in> set (cells_yx (nat (game_params.w params)) (nat (game_params.h params))).
          x < w (new_state params) \<and> y < h (new_state params)"
    by (simp add: set_cells_yx new_state_def)
  from new_game_loop_inv [OF run fresh_inv_new_state this] have f: "fresh_inv s" .
  then show "wf_state s" by (simp add: fresh_inv_iff)
  from f show "lit_inv s" by (rule fresh_inv_lit_inv)
  from f show "nlights s = count_lights s" by (rule fresh_inv_lit_inv)
qed

subsection \<open>Every reachable state\<close>

text \<open>
  In every reachable state the grid has its size, and the lit count of a white cell is
  the number of lights that see it; so no lit count is negative, which is what the choice
  of the square to guess needs. The solver fails no assertion from a reachable state.
\<close>

lemma reachable_inv: "reachable s \<Longrightarrow> solver_inv True s"
proof (induction rule: reachable.induct)
  case (fresh params desc s)
  from new_game_inv [OF this] show ?case by (simp add: solver_inv_def lit_inv_nonneg)
next
  case (move s m s')
  from move.IH have "wf_state s" "lit_inv s" by (simp_all add: solver_inv_def)
  with execute_move_inv [OF move.hyps(2)] show ?case by (simp add: solver_inv_def lit_inv_nonneg)
next
  case (solve s fuel allowguess forceunique maxdepth r s' maxdepth')
  from dosolve_post [OF solve.IH, of fuel allowguess forceunique maxdepth] solve.hyps(2)
  show ?case by simp
qed

lemma reachable_lights_nonneg: "reachable s \<Longrightarrow> lights_nonneg s"
  using reachable_inv [of s] by (simp add: solver_inv_def)

lemma reachable_dosolve_no_assert:
  "reachable s \<Longrightarrow> dosolve n s ag fu md \<noteq> Inl AssertFailed"
  using dosolve_post [OF reachable_inv, of s n ag fu md] by (auto simp: solver_post_def)

text \<open>
  \<open>nlights\<close> is the number of lights in a fresh state and after any sequence of moves
  from one; only the solver breaks this.
\<close>

lemma moves_keep_nlights:
  assumes "wf_state s" "nlights s = count_lights s" "execute_move s m = Inr (Some s')"
  shows "wf_state s' \<and> nlights s' = count_lights s'"
  using execute_move_inv [OF assms(3,1)] assms(2) by simp

end
